theory Spec2Isabelle
  imports Main "HOL-Library.Word" "HOL-Library.Signed_Division"
begin

section \<open>Data model\<close>

text \<open>
  The search (\<open>search.c\<close>, \<open>search.h\<close>) and the training driver (\<open>training.c\<close>) are embedded
  as state-passing functions. The board, the evaluator, the move selector and the
  transposition table live in headers that are not part of the sources at hand; they are
  taken as parameters, collected in the record \<open>env\<close>.

  Modelled from the spec: the typedefs \<open>Score\<close>, \<open>Depth\<close>, \<open>Move\<close>, \<open>Key\<close> and the enums
  \<open>Bound\<close>, \<open>Colour\<close>, \<open>MoveType\<close> and \<open>MoveSelectorState\<close> of \<open>utility.h\<close>,
  \<open>transposition_table.h\<close> and \<open>move_selector.h\<close> are missing. \<open>Depth\<close> is a small unsigned
  integer with \<open>MAX_DEPTH = 255\<close> whose overflow ends the driver, hence 8 bits; \<open>Score\<close> is a
  signed integer whose width is unknown, modelled as \<open>int\<close> without wrap-around; \<open>Move\<close> is an
  opaque value whose sentinel \<open>NO_MOVE\<close> is falsy, hence 0; \<open>Bound\<close> is
  \<open>{Exact, Lower, Upper}\<close>; \<open>Colour\<close> has White falsy and Black truthy, as
  \<open>winner ? 0.0 : 1.0\<close> with "1.0 == white won" in \<open>playGame\<close> requires.
\<close>

type_synonym Score = int
type_synonym Depth = "8 word"
type_synonym Move = nat
type_synonym Key = nat

definition NO_MOVE :: Move where
  "NO_MOVE = 0"

definition MAX_DEPTH :: nat where
  "MAX_DEPTH = 255"

datatype Node = ROOT | PV | NON_PV

datatype Bound = EXACT | LOWER | UPPER

datatype Colour = WHITE | BLACK

datatype MoveType = EN_PASSANT | QUEEN_PROMOTION | OTHER_MOVE_TYPE nat

datatype MoveSelectorState = TT_MOVE | GET_NON_CAPTURE_MOVES

record MoveObject =
  mo_move :: Move
  mo_score :: Score

text \<open>
  A transposition-table entry as the probe hands it out: \<open>pe_slot\<close> stands for the
  pointer itself (the place a later store writes to), the other fields for what the search
  reads through it. All reads happen before the node's first recursive call.
\<close>

record PositionEvaluation =
  pe_slot :: nat
  pe_bestMove :: Move
  pe_depth :: Depth
  pe_bound :: Bound
  pe_nodeScore :: Score
  pe_staticEvaluation :: Score

text \<open>The external collaborators and the constants of \<open>utility.h\<close>.\<close>

record ('b, 'a, 't, 'ms) env =
  INFINITE :: Score
  CHECKMATE :: Score
  GUARANTEE_CHECKMATE :: Score
  DRAW :: Score
  clockReading :: "nat \<Rightarrow> 64 word"
  isDraw :: "'b \<Rightarrow> bool"
  getCheckers :: "'b \<Rightarrow> bool"
  sideToMove :: "'b \<Rightarrow> Colour"
  evaluation :: "'a \<Rightarrow> Colour \<Rightarrow> Score"
  hasNonPawnMaterial :: "'b \<Rightarrow> Colour \<Rightarrow> bool"
  insufficientMaterial :: "'b \<Rightarrow> bool"
  getPositionKey :: "'b \<Rightarrow> Key"
  pieceTypes :: "'b \<Rightarrow> nat \<Rightarrow> nat"
  getToSquare :: "Move \<Rightarrow> nat"
  getMoveType :: "Move \<Rightarrow> MoveType"
  createMoveSelector :: "'b \<Rightarrow> MoveSelectorState \<Rightarrow> Move \<Rightarrow> 'ms"
  getNextBestMove :: "'b \<Rightarrow> 'ms \<Rightarrow> Move \<times> 'ms"
  isLegalMove :: "'b \<Rightarrow> Move \<Rightarrow> bool"
  makeMove :: "'b \<Rightarrow> 'a \<Rightarrow> Move \<Rightarrow> 'b \<times> 'a"
  undoMove :: "'b \<Rightarrow> Move \<Rightarrow> 'b"
  makeNullMove :: "'b \<Rightarrow> 'b"
  undoNullMove :: "'b \<Rightarrow> 'b"
  probeTranspositionTable :: "'t \<Rightarrow> Key \<Rightarrow> PositionEvaluation \<times> bool"
  savePositionEvaluation ::
    "'t \<Rightarrow> nat \<Rightarrow> Key \<Rightarrow> Move \<Rightarrow> Depth \<Rightarrow> Bound \<Rightarrow> Score \<Rightarrow> Score \<Rightarrow> 't"
  adjustNodeScoreFromTT :: "Score \<Rightarrow> 8 word \<Rightarrow> Score"
  adjustNodeScoreToTT :: "Score \<Rightarrow> 8 word \<Rightarrow> Score"
  moveToString :: "Move \<Rightarrow> string"
  getFEN :: "'b \<Rightarrow> string"

text \<open>
  What the program does to the outside, in order: a node counted (\<open>st->nodes++\<close>), a call
  of \<open>outOfTime\<close> with its result, a call of \<open>savePositionEvaluation\<close> with the value
  \<open>st->stop\<close> had at the call, and the lines printed.
\<close>

datatype outputLine =
  Info Depth string Score "64 word" "64 word" "64 word" string
  | Bestmove string
  | BestmovePonder string string
  | BestmoveUninitialised

datatype event =
  NodeCounted
  | Polled bool
  | TTWrite bool
  | Printed outputLine

text \<open>
  \<open>struct SearchThread\<close>, and around it what the C program keeps outside the struct: the
  \<open>SearchHelper\<close> array of \<open>startSearch\<close> (a helper is addressed by its index, \<open>sh + 1\<close> is
  the next index), the number of clock readings taken so far, and the events so far.
\<close>

record ('b, 'a, 't) SearchThread =
  accumulator :: "nat \<Rightarrow> 'a"
  board :: 'b
  tt :: 't
  startNs :: "64 word"
  maxSearchTimeNs :: "64 word"
  nodes :: "64 word"
  bestMove :: MoveObject
  ply :: "8 word"
  print :: bool
  stop :: bool

record ('b, 'a, 't) machine = "('b, 'a, 't) SearchThread" +
  helpers :: "nat \<Rightarrow> nat \<Rightarrow> Move"
  clock :: nat
  trace :: "event list"

section \<open>Time and the stop flag\<close>

definition getTimeNs ::
  "('b, 'a, 't, 'ms) env \<Rightarrow> ('b, 'a, 't) machine \<Rightarrow> 64 word \<times> ('b, 'a, 't) machine" where
  "getTimeNs e st = (clockReading e (clock st), st\<lparr>clock := Suc (clock st)\<rparr>)"

definition outOfTime ::
  "('b, 'a, 't, 'ms) env \<Rightarrow> ('b, 'a, 't) machine \<Rightarrow> bool \<times> ('b, 'a, 't) machine" where
  "outOfTime e st =
     (case getTimeNs e st of (now, st1) \<Rightarrow>
        let r = (now - startNs st1 \<ge> maxSearchTimeNs st1)
        in (r, st1\<lparr>stop := r, trace := trace st1 @ [Polled r]\<rparr>))"

definition createSearchThread ::
  "('b, 'a, 't) machine \<Rightarrow> 'b \<Rightarrow> 't \<Rightarrow> 'a \<Rightarrow> 64 word \<Rightarrow> bool \<Rightarrow> ('b, 'a, 't) machine" where
  "createSearchThread st b t acc maxNs pr =
     st\<lparr>board := b, tt := t, accumulator := (accumulator st)(0 := acc),
        maxSearchTimeNs := maxNs, nodes := 0, ply := 0, print := pr, stop := False\<rparr>"

section \<open>Principal variation\<close>

text \<open>
  \<open>updatePV\<close> writes the move and then copies the children's line up to and including its
  terminating \<open>NO_MOVE\<close>. The children's array has \<open>MAX_DEPTH\<close> entries; the C loop has no
  bound of its own, the model stops after reading the last of them.
\<close>

fun copyPV :: "nat \<Rightarrow> nat \<Rightarrow> (nat \<Rightarrow> Move) \<Rightarrow> (nat \<Rightarrow> Move) \<Rightarrow> (nat \<Rightarrow> Move)" where
  "copyPV 0 i currentPV childrenPV = currentPV"
| "copyPV (Suc n) i currentPV childrenPV =
     (let m = childrenPV i; cur = currentPV(Suc i := m)
      in if m \<noteq> NO_MOVE then copyPV n (Suc i) cur childrenPV else cur)"

definition updatePV :: "Move \<Rightarrow> (nat \<Rightarrow> Move) \<Rightarrow> (nat \<Rightarrow> Move) \<Rightarrow> (nat \<Rightarrow> Move)" where
  "updatePV move currentPV childrenPV = copyPV MAX_DEPTH 0 (currentPV(0 := move)) childrenPV"

fun pvTail :: "('b, 'a, 't, 'ms) env \<Rightarrow> nat \<Rightarrow> nat \<Rightarrow> (nat \<Rightarrow> Move) \<Rightarrow> string" where
  "pvTail e 0 d pv = []"
| "pvTail e (Suc n) d pv =
     (if d < MAX_DEPTH \<and> pv d \<noteq> NO_MOVE
      then CHR '' '' # moveToString e (pv d) @ pvTail e n (Suc d) pv
      else [])"

text \<open>\<open>pvToString\<close> yields the three buffers \<open>(pvStr, bestMove, ponderMove)\<close>.\<close>

definition pvToString ::
  "('b, 'a, 't, 'ms) env \<Rightarrow> (nat \<Rightarrow> Move) \<Rightarrow> string \<times> string \<times> string" where
  "pvToString e pv =
     (moveToString e (pv 0) @ pvTail e MAX_DEPTH 1 pv,
      moveToString e (pv 0),
      if 1 < MAX_DEPTH \<and> pv 1 \<noteq> NO_MOVE then moveToString e (pv 1) else [])"

section \<open>Small helpers of the search\<close>

definition isInteresting :: "('b, 'a, 't, 'ms) env \<Rightarrow> 'b \<Rightarrow> Move \<Rightarrow> bool" where
  "isInteresting e b move \<longleftrightarrow>
     pieceTypes e b (getToSquare e move) \<noteq> 0 \<or> getMoveType e move = EN_PASSANT
     \<or> getMoveType e move = QUEEN_PROMOTION"

definition getReverseFutilityPruningScore :: "Score \<Rightarrow> Depth \<Rightarrow> Score" where
  "getReverseFutilityPruningScore staticEval depth = staticEval + 150 * uint depth"

definition getRFPMargin :: "Depth \<Rightarrow> Score" where
  "getRFPMargin depth = 150 * uint depth"

text \<open>
  \<open>printSearch\<close>: the score type and the printed score (C's \<open>/\<close> truncates towards zero,
  which is \<open>sdiv\<close>), then the line itself.
\<close>

definition scoreType :: "('b, 'a, 't, 'ms) env \<Rightarrow> Score \<Rightarrow> string" where
  "scoreType e score =
     (if score \<ge> GUARANTEE_CHECKMATE e \<or> score \<le> - GUARANTEE_CHECKMATE e then ''mate'' else ''cp'')"

definition printedScore :: "('b, 'a, 't, 'ms) env \<Rightarrow> Score \<Rightarrow> Score" where
  "printedScore e score =
     (if score \<ge> GUARANTEE_CHECKMATE e then (CHECKMATE e - score + 1) sdiv 2
      else if score \<le> - GUARANTEE_CHECKMATE e then (- CHECKMATE e - score) sdiv 2
      else score)"

definition printSearch ::
  "('b, 'a, 't, 'ms) env \<Rightarrow> Depth \<Rightarrow> Score \<Rightarrow> string \<Rightarrow> ('b, 'a, 't) machine \<Rightarrow> ('b, 'a, 't) machine" where
  "printSearch e depth score pvString st =
     (case getTimeNs e st of (now, st1) \<Rightarrow>
        let time = (now - startNs st1) div 1000000;
            nps = nodes st1 * 1000 div (time + 1)
        in st1\<lparr>trace := trace st1 @
             [Printed (Info depth (scoreType e score) (printedScore e score) (nodes st1) nps time pvString)]\<rparr>)"

section \<open>State changes of a node\<close>

definition countNode :: "('b, 'a, 't) machine \<Rightarrow> ('b, 'a, 't) machine" where
  "countNode st = st\<lparr>nodes := nodes st + 1, trace := trace st @ [NodeCounted]\<rparr>"

definition resetPV :: "nat \<Rightarrow> ('b, 'a, 't) machine \<Rightarrow> ('b, 'a, 't) machine" where
  "resetPV sh st = st\<lparr>helpers := (helpers st)(sh := (helpers st sh)(0 := NO_MOVE))\<rparr>"

definition storePV :: "Move \<Rightarrow> nat \<Rightarrow> nat \<Rightarrow> ('b, 'a, 't) machine \<Rightarrow> ('b, 'a, 't) machine" where
  "storePV move sh child st =
     st\<lparr>helpers := (helpers st)(sh := updatePV move (helpers st sh) (helpers st child))\<rparr>"

text \<open>
  \<open>st->ply++; *childAccumulator = *currentAccumulator; makeMove(board, &history,
  childAccumulator, move)\<close>, with \<open>cur\<close> the index \<open>st->ply\<close> had when the node was entered
  (the two accumulator pointers are taken once, before the loop).
\<close>

definition descend ::
  "('b, 'a, 't, 'ms) env \<Rightarrow> nat \<Rightarrow> Move \<Rightarrow> ('b, 'a, 't) machine \<Rightarrow> ('b, 'a, 't) machine" where
  "descend e cur move st =
     (case makeMove e (board st) (accumulator st cur) move of (b, a) \<Rightarrow>
        st\<lparr>ply := ply st + 1, board := b, accumulator := (accumulator st)(Suc cur := a)\<rparr>)"

definition ascend ::
  "('b, 'a, 't, 'ms) env \<Rightarrow> Move \<Rightarrow> ('b, 'a, 't) machine \<Rightarrow> ('b, 'a, 't) machine" where
  "ascend e move st = st\<lparr>board := undoMove e (board st) move, ply := ply st - 1\<rparr>"

definition descendNull ::
  "('b, 'a, 't, 'ms) env \<Rightarrow> nat \<Rightarrow> ('b, 'a, 't) machine \<Rightarrow> ('b, 'a, 't) machine" where
  "descendNull e cur st =
     st\<lparr>ply := ply st + 1, accumulator := (accumulator st)(Suc cur := accumulator st cur),
        board := makeNullMove e (board st)\<rparr>"

definition ascendNull ::
  "('b, 'a, 't, 'ms) env \<Rightarrow> ('b, 'a, 't) machine \<Rightarrow> ('b, 'a, 't) machine" where
  "ascendNull e st = st\<lparr>board := undoNullMove e (board st), ply := ply st - 1\<rparr>"

definition saveTT ::
  "('b, 'a, 't, 'ms) env \<Rightarrow> PositionEvaluation \<Rightarrow> Key \<Rightarrow> Move \<Rightarrow> Depth \<Rightarrow> Bound \<Rightarrow> Score \<Rightarrow> Score
   \<Rightarrow> ('b, 'a, 't) machine \<Rightarrow> ('b, 'a, 't) machine" where
  "saveTT e pe positionKey move depth bound nodeScore staticEval st =
     st\<lparr>tt := savePositionEvaluation e (tt st) (pe_slot pe) positionKey move depth bound nodeScore staticEval,
        trace := trace st @ [TTWrite (stop st)]\<rparr>"

text \<open>Lines 132 to 137 of \<open>alphaBeta\<close>: the score returned at once from a table hit, if any.\<close>

definition ttCutoff ::
  "('b, 'a, 't, 'ms) env \<Rightarrow> bool \<Rightarrow> bool \<Rightarrow> PositionEvaluation \<Rightarrow> Depth \<Rightarrow> Score \<Rightarrow> Score \<Rightarrow> 8 word
   \<Rightarrow> Score option" where
  "ttCutoff e isPvNode hasEvaluation pe depth alpha beta p =
     (if hasEvaluation then
        if \<not> isPvNode \<and> pe_depth pe \<ge> depth then
          let bound = pe_bound pe; nodeScore = adjustNodeScoreFromTT e (pe_nodeScore pe) p
          in if bound = EXACT \<or> (if bound = LOWER then nodeScore \<ge> beta else nodeScore \<le> alpha)
             then Some nodeScore else None
        else None
      else None)"

text \<open>Lines 216 to 221 of \<open>alphaBeta\<close>: mate or stalemate, the store, the returned score.\<close>

definition finishNode ::
  "('b, 'a, 't, 'ms) env \<Rightarrow> bool \<Rightarrow> Depth \<Rightarrow> Score \<Rightarrow> Score \<Rightarrow> PositionEvaluation \<Rightarrow> Key
   \<Rightarrow> nat \<Rightarrow> Score \<Rightarrow> Move \<Rightarrow> ('b, 'a, 't) machine \<Rightarrow> Score \<times> ('b, 'a, 't) machine" where
  "finishNode e checkers depth oldAlpha staticEval pe positionKey legalMoves bestScore bestMv st =
     (let bestScore1 =
            (if legalMoves = 0 then (if checkers then - CHECKMATE e + uint (ply st) else DRAW e)
             else bestScore)
      in (bestScore1,
          if \<not> stop st
          then saveTT e pe positionKey bestMv depth (if bestScore1 > oldAlpha then EXACT else UPPER)
                 (adjustNodeScoreToTT e
                    (if bestScore1 = - INFINITE e then staticEval else bestScore1) (ply st))
                 staticEval st
          else st))"

section \<open>Quiescence search and alpha-beta\<close>

text \<open>
  A loop of the C code is a body run again and again: the body either leaves the function
  (\<open>Return\<close>) or goes round with a new loop state (\<open>Continue\<close>). The first argument is
  fuel: each call and each loop iteration takes one unit, and \<open>None\<close> is the answer of a
  computation that has not finished within it. Neither the quiescence recursion nor the
  move selector's stream is bounded by anything in these sources, so the properties
  below speak of the calls that return, and say so where a call is shown to return.
\<close>

datatype ('r, 's) step = Return 'r | Continue 's

primrec loopFuel :: "nat \<Rightarrow> ('s \<Rightarrow> ('r, 's) step option) \<Rightarrow> 's \<Rightarrow> 'r option" where
  "loopFuel 0 body s = None"
| "loopFuel (Suc n) body s =
     (case body s of
        None \<Rightarrow> None
      | Some (Return r) \<Rightarrow> Some r
      | Some (Continue s1) \<Rightarrow> loopFuel n body s1)"

text \<open>
  One round of the move loop of \<open>quiescenceSearch\<close> (lines 91 to 108). The loop state is
  \<open>(alpha, bestScore, ms, st)\<close>; \<open>qs\<close> is the recursive call.
\<close>

definition qsStep ::
  "(Score \<Rightarrow> Score \<Rightarrow> nat \<Rightarrow> ('b, 'a, 't) machine \<Rightarrow> (Score \<times> ('b, 'a, 't) machine) option)
   \<Rightarrow> ('b, 'a, 't, 'ms) env \<Rightarrow> Score \<Rightarrow> nat \<Rightarrow> nat
   \<Rightarrow> Score \<times> Score \<times> 'ms \<times> ('b, 'a, 't) machine
   \<Rightarrow> (Score \<times> ('b, 'a, 't) machine, Score \<times> Score \<times> 'ms \<times> ('b, 'a, 't) machine) step option" where
  "qsStep qs e beta cur sh s =
     (case s of (alpha, bestScore, ms, st) \<Rightarrow>
      (case getNextBestMove e (board st) ms of (move, ms1) \<Rightarrow>
        if move = NO_MOVE then Some (Return (bestScore, st))
        else if \<not> isLegalMove e (board st) move then Some (Continue (alpha, bestScore, ms1, st))
        else
          (case qs (- beta) (- alpha) sh (descend e cur move st) of
             None \<Rightarrow> None
           | Some (r, st1) \<Rightarrow>
               let score = - r; st2 = ascend e move st1 in
               if score > bestScore then
                 if score > alpha then
                   if score \<ge> beta then Some (Return (score, st2))
                   else Some (Continue (score, score, ms1, st2))
                 else Some (Continue (alpha, score, ms1, st2))
               else Some (Continue (alpha, bestScore, ms1, st2)))))"

primrec quiescenceSearch ::
  "nat \<Rightarrow> ('b, 'a, 't, 'ms) env \<Rightarrow> Score \<Rightarrow> Score \<Rightarrow> nat \<Rightarrow> ('b, 'a, 't) machine
   \<Rightarrow> (Score \<times> ('b, 'a, 't) machine) option" where
  "quiescenceSearch 0 e alpha beta sh st = None"
| "quiescenceSearch (Suc n) e alpha beta sh st =
     (let st1 = countNode st in
      if isDraw e (board st1) then Some (DRAW e, st1)
      else
        let checkers = getCheckers e (board st1);
            cur = unat (ply st1);
            bestScore = (if checkers then - CHECKMATE e + uint (ply st1)
                         else evaluation e (accumulator st1 cur) (sideToMove e (board st1)))
        in if bestScore > alpha \<and> bestScore \<ge> beta then Some (bestScore, st1)
           else loopFuel n (qsStep (quiescenceSearch n e) e beta cur sh)
                  (if bestScore > alpha then bestScore else alpha, bestScore,
                   createMoveSelector e (board st1)
                     (if checkers then TT_MOVE else GET_NON_CAPTURE_MOVES) NO_MOVE,
                   st1))"

text \<open>
  \<open>alphaBeta\<close> in parts: \<open>alphaBeta\<close> itself is lines 114 to 139 (up to the table probe),
  \<open>searchNode\<close> lines 142 to 160 (static evaluation and null-move pruning), \<open>searchMoves\<close>
  lines 163 to 221, \<open>abStep\<close> one round of the move loop and \<open>pvSearch\<close> its lines 193 to
  195. In the parts, \<open>ab\<close> is the recursive call. \<open>legalMoves\<close> is a C \<open>int\<close>, here a
  \<open>nat\<close>.
\<close>

type_synonym ('b, 'a, 't) search =
  "Score \<Rightarrow> Score \<Rightarrow> Depth \<Rightarrow> Node \<Rightarrow> nat \<Rightarrow> ('b, 'a, 't) machine
   \<Rightarrow> (Score \<times> ('b, 'a, 't) machine) option"

text \<open>
  \<open>score\<close> is not initialised when \<open>expectedNonPvNode\<close> is false; the second condition
  then reads it only if \<open>legalMoves\<close> is not 1, which cannot be (the last branch).
\<close>

definition pvSearch ::
  "('b, 'a, 't) search \<Rightarrow> Score \<Rightarrow> Score \<Rightarrow> Depth \<Rightarrow> Node \<Rightarrow> nat \<Rightarrow> nat \<Rightarrow> ('b, 'a, 't) machine
   \<Rightarrow> (Score \<times> ('b, 'a, 't) machine) option" where
  "pvSearch ab alpha beta depth node legalMoves child st =
     (let reductions = (if legalMoves > 1 \<and> depth > 1 then 2 else 1 :: Depth) in
      if node = NON_PV \<or> legalMoves > 1 then
        (case ab (- alpha - 1) (- alpha) (depth - reductions) NON_PV child st of
           None \<Rightarrow> None
         | Some (r, st1) \<Rightarrow>
             if node \<noteq> NON_PV \<and> (legalMoves = 1 \<or> - r > alpha) then
               (case ab (- beta) (- alpha) (depth - 1) PV child st1 of
                  None \<Rightarrow> None
                | Some (r2, st2) \<Rightarrow> Some (- r2, st2))
             else Some (- r, st1))
      else if node \<noteq> NON_PV \<and> legalMoves = 1 then
        (case ab (- beta) (- alpha) (depth - 1) PV child st of
           None \<Rightarrow> None
         | Some (r2, st2) \<Rightarrow> Some (- r2, st2))
      else None)"

text \<open>
  How the move loop of \<open>alphaBeta\<close> ends: by the \<open>return score\<close> inside it, or by running
  out of moves with the counters it leaves. Its loop state is
  \<open>(alpha, legalMoves, bestScore, bestMove, ms, st)\<close>.
\<close>

datatype loopExit = BetaCutoff Score | LoopDone nat Score Move

definition abStep ::
  "('b, 'a, 't) search \<Rightarrow> ('b, 'a, 't, 'ms) env \<Rightarrow> Score \<Rightarrow> Depth \<Rightarrow> Node \<Rightarrow> nat
   \<Rightarrow> PositionEvaluation \<Rightarrow> Key \<Rightarrow> bool \<Rightarrow> Score \<Rightarrow> nat
   \<Rightarrow> Score \<times> nat \<times> Score \<times> Move \<times> 'ms \<times> ('b, 'a, 't) machine
   \<Rightarrow> (loopExit \<times> ('b, 'a, 't) machine,
       Score \<times> nat \<times> Score \<times> Move \<times> 'ms \<times> ('b, 'a, 't) machine) step option" where
  "abStep ab e beta depth node sh pe positionKey checkers staticEval cur s =
     (case s of (alpha, legalMoves0, bestScore, bestMv, ms, st) \<Rightarrow>
      (case getNextBestMove e (board st) ms of (move, ms1) \<Rightarrow>
        if move = NO_MOVE then Some (Return (LoopDone legalMoves0 bestScore bestMv, st))
        else if \<not> isLegalMove e (board st) move
        then Some (Continue (alpha, legalMoves0, bestScore, bestMv, ms1, st))
        else
          let legalMoves = Suc legalMoves0;
              expectedNonPvNode = (node = NON_PV \<or> legalMoves > 1)
          in
          if expectedNonPvNode \<and> depth < 4 \<and> \<not> checkers \<and> \<not> isInteresting e (board st) move
             \<and> getReverseFutilityPruningScore staticEval depth \<le> alpha
          then Some (Continue (alpha, legalMoves, bestScore, bestMv, ms1, st))
          else
            (case pvSearch ab alpha beta depth node legalMoves (Suc sh) (descend e cur move st) of
               None \<Rightarrow> None
             | Some (score, st1) \<Rightarrow>
                 let st2 = ascend e move st1 in
                 if score > bestScore then
                   if score > alpha then
                     if score \<ge> beta
                     then Some (Return (BetaCutoff score,
                            if \<not> stop st2
                            then saveTT e pe positionKey move depth LOWER
                                   (adjustNodeScoreToTT e score (ply st2)) staticEval st2
                            else st2))
                     else Some (Continue (score, legalMoves, score, move, ms1,
                                  storePV move sh (Suc sh) st2))
                   else Some (Continue (alpha, legalMoves, score, move, ms1, st2))
                 else Some (Continue (alpha, legalMoves, bestScore, bestMv, ms1, st2)))))"

definition searchMoves ::
  "('b, 'a, 't) search \<Rightarrow> nat \<Rightarrow> ('b, 'a, 't, 'ms) env \<Rightarrow> Score \<Rightarrow> Score \<Rightarrow> Depth \<Rightarrow> Node \<Rightarrow> nat
   \<Rightarrow> PositionEvaluation \<Rightarrow> Key \<Rightarrow> Move \<Rightarrow> bool \<Rightarrow> Score \<Rightarrow> ('b, 'a, 't) machine
   \<Rightarrow> (Score \<times> ('b, 'a, 't) machine) option" where
  "searchMoves ab n e alpha beta depth node sh pe positionKey ttMove checkers staticEval st =
     (if node = NON_PV \<and> \<not> checkers \<and> staticEval - getRFPMargin depth \<ge> beta
      then Some (staticEval, st)
      else
        (case loopFuel n
                (abStep ab e beta depth node sh pe positionKey checkers staticEval (unat (ply st)))
                (alpha, 0, - INFINITE e, NO_MOVE,
                 createMoveSelector e (board st) TT_MOVE ttMove, st) of
           None \<Rightarrow> None
         | Some (BetaCutoff score, st1) \<Rightarrow> Some (score, st1)
         | Some (LoopDone legalMoves bestScore bestMv, st1) \<Rightarrow>
             Some (finishNode e checkers depth alpha staticEval pe positionKey
                     legalMoves bestScore bestMv st1)))"

definition searchNode ::
  "('b, 'a, 't) search \<Rightarrow> nat \<Rightarrow> ('b, 'a, 't, 'ms) env \<Rightarrow> Score \<Rightarrow> Score \<Rightarrow> Depth \<Rightarrow> Node \<Rightarrow> nat
   \<Rightarrow> PositionEvaluation \<Rightarrow> bool \<Rightarrow> Key \<Rightarrow> Move \<Rightarrow> ('b, 'a, 't) machine
   \<Rightarrow> (Score \<times> ('b, 'a, 't) machine) option" where
  "searchNode ab n e alpha beta depth node sh pe hasEvaluation positionKey ttMove st =
     (let cur = unat (ply st);
          checkers = getCheckers e (board st);
          staticEval = (if checkers then - INFINITE e
                        else if hasEvaluation then pe_staticEvaluation pe
                        else evaluation e (accumulator st cur) (sideToMove e (board st)))
      in
      if node = NON_PV \<and> \<not> checkers \<and> depth > 3 \<and> staticEval \<ge> beta
         \<and> hasNonPawnMaterial e (board st) (sideToMove e (board st))
      then
        (case ab (- beta) (- beta + 1) (depth - 4) NON_PV (Suc sh) (descendNull e cur st) of
           None \<Rightarrow> None
         | Some (r, st1) \<Rightarrow>
             let score = - r; st2 = ascendNull e st1 in
             if score \<ge> beta then Some (score, st2)
             else searchMoves ab n e alpha beta depth node sh pe positionKey ttMove
                    checkers staticEval st2)
      else searchMoves ab n e alpha beta depth node sh pe positionKey ttMove
             checkers staticEval st)"

primrec alphaBeta ::
  "nat \<Rightarrow> ('b, 'a, 't, 'ms) env \<Rightarrow> Score \<Rightarrow> Score \<Rightarrow> Depth \<Rightarrow> Node \<Rightarrow> nat \<Rightarrow> ('b, 'a, 't) machine
   \<Rightarrow> (Score \<times> ('b, 'a, 't) machine) option" where
  "alphaBeta 0 e alpha beta depth node sh st = None"
| "alphaBeta (Suc n) e alpha beta depth node sh st =
     (let st0 = resetPV sh st in
      if depth = 0 then quiescenceSearch n e alpha beta sh st0
      else
        let st1 = countNode st0 in
        if node \<noteq> ROOT \<and> isDraw e (board st1) then Some (DRAW e, st1)
        else
          (case outOfTime e st1 of (timeout, st2) \<Rightarrow>
             if timeout then Some (DRAW e, st2)
             else
               let positionKey = getPositionKey e (board st2) in
               (case probeTranspositionTable e (tt st2) positionKey of (pe, hasEvaluation) \<Rightarrow>
                  (case ttCutoff e (node \<noteq> NON_PV) hasEvaluation pe depth alpha beta (ply st2) of
                     Some nodeScore \<Rightarrow> Some (nodeScore, st2)
                   | None \<Rightarrow>
                       searchNode (alphaBeta n e) n e alpha beta depth node sh pe hasEvaluation
                         positionKey (if hasEvaluation then pe_bestMove pe else NO_MOVE) st2))))"

section \<open>Iterative deepening\<close>

text \<open>
  The \<open>for\<close> loop of \<open>startSearch\<close>, lines 232 to 248. The loop state is
  \<open>(alpha, beta, depth, buffers, st)\<close>, where \<open>buffers\<close> are the three character arrays
  \<open>(pvString, bestMove, ponderMove)\<close>, \<open>None\<close> as long as nothing has been written to
  them. \<open>k\<close> is the fuel handed to each call of \<open>alphaBeta\<close>. The helper array \<open>sh\<close> is a
  local of \<open>startSearch\<close> that C does not initialise: the model starts from whatever
  \<open>helpers\<close> holds.
\<close>

definition ASPIRATION_WINDOW :: Score where
  "ASPIRATION_WINDOW = 25"

definition searchStep ::
  "nat \<Rightarrow> ('b, 'a, 't, 'ms) env
   \<Rightarrow> Score \<times> Score \<times> Depth \<times> (string \<times> string \<times> string) option \<times> ('b, 'a, 't) machine
   \<Rightarrow> ((string \<times> string \<times> string) option \<times> ('b, 'a, 't) machine,
       Score \<times> Score \<times> Depth \<times> (string \<times> string \<times> string) option \<times> ('b, 'a, 't) machine)
      step option" where
  "searchStep k e s =
     (case s of (alpha, beta, depth, buffers, st) \<Rightarrow>
        if depth = 0 then Some (Return (buffers, st))
        else
          (case outOfTime e st of (timeout, st1) \<Rightarrow>
             if timeout then Some (Return (buffers, st1))
             else
               (case alphaBeta k e alpha beta depth ROOT 0 st1 of
                  None \<Rightarrow> None
                | Some (score, st2) \<Rightarrow>
                    if score > alpha \<and> score < beta \<and> \<not> stop st2 then
                      let st3 = st2\<lparr>bestMove := \<lparr>mo_move = helpers st2 0 0, mo_score = score\<rparr>\<rparr>;
                          strings = pvToString e (helpers st3 0);
                          st4 = (if print st3 then printSearch e depth score (fst strings) st3
                                 else st3)
                      in Some (Continue (score - ASPIRATION_WINDOW, score + ASPIRATION_WINDOW,
                                 depth + 1, Some strings, st4))
                    else
                      Some (Continue (if score > alpha then alpha else - INFINITE e,
                                 if score < beta then beta else INFINITE e,
                                 (depth - 1) + 1, buffers, st2)))))"

definition printBestmove :: "(string \<times> string \<times> string) option \<Rightarrow> outputLine" where
  "printBestmove buffers =
     (case buffers of
        None \<Rightarrow> BestmoveUninitialised
      | Some (pvString, bestMv, ponderMove) \<Rightarrow>
          if ponderMove \<noteq> [] then BestmovePonder bestMv ponderMove else Bestmove bestMv)"

definition startSearch ::
  "nat \<Rightarrow> nat \<Rightarrow> ('b, 'a, 't, 'ms) env \<Rightarrow> ('b, 'a, 't) machine \<Rightarrow> ('b, 'a, 't) machine option" where
  "startSearch n k e st =
     (case getTimeNs e st of (now, st0) \<Rightarrow>
        (case loopFuel n (searchStep k e)
                (- INFINITE e, INFINITE e, 1, None, st0\<lparr>startNs := now\<rparr>) of
           None \<Rightarrow> None
         | Some (buffers, st1) \<Rightarrow>
             Some (if print st1
                   then st1\<lparr>trace := trace st1 @ [Printed (printBestmove buffers)]\<rparr>
                   else st1)))"

text \<open>
  One iteration of the loop as the specification words it, written out without the
  functions above, to be compared with \<open>searchStep\<close>: from the window, the depth, the
  buffers, the score \<open>s\<close> and the state the search of the depth has left, the loop state
  of the next round. An accepted iteration commits the root move and score, writes the
  three buffers (the root line with its moves separated by blanks, its first move, its
  second move if there is one), prints the info line if \<open>print\<close> is set, which reads the
  clock once, and goes on to depth + 1 with the window \<open>[s - 25, s + 25]\<close>; a rejected
  one changes nothing but the bound that was exceeded.
\<close>

definition specifiedIteration ::
  "('b, 'a, 't, 'ms) env \<Rightarrow> Score \<Rightarrow> Score \<Rightarrow> Depth \<Rightarrow> (string \<times> string \<times> string) option
   \<Rightarrow> Score \<Rightarrow> ('b, 'a, 't) machine
   \<Rightarrow> Score \<times> Score \<times> Depth \<times> (string \<times> string \<times> string) option \<times> ('b, 'a, 't) machine" where
  "specifiedIteration e alpha beta depth buffers s st2 =
     (if alpha < s \<and> s < beta \<and> \<not> stop st2 then
        let pv = helpers st2 0;
            pvString = moveToString e (pv 0)
              @ concat (map (\<lambda>m. CHR '' '' # moveToString e m)
                          (takeWhile (\<lambda>m. m \<noteq> NO_MOVE) (map pv [1..<255])));
            ponder = (if pv 1 \<noteq> NO_MOVE then moveToString e (pv 1) else []);
            time = (clockReading e (clock st2) - startNs st2) div 1000000;
            line = Info depth
              (if GUARANTEE_CHECKMATE e \<le> s \<or> s \<le> - GUARANTEE_CHECKMATE e
               then ''mate'' else ''cp'')
              (if GUARANTEE_CHECKMATE e \<le> s then (CHECKMATE e - s + 1) sdiv 2
               else if s \<le> - GUARANTEE_CHECKMATE e then (- CHECKMATE e - s) sdiv 2
               else s)
              (nodes st2) (nodes st2 * 1000 div (time + 1)) time pvString;
            committed = st2\<lparr>bestMove := \<lparr>mo_move = pv 0, mo_score = s\<rparr>\<rparr>
        in (s - 25, s + 25, depth + 1, Some (pvString, moveToString e (pv 0), ponder),
            if print st2
            then committed\<lparr>clock := Suc (clock st2), trace := trace st2 @ [Printed line]\<rparr>
            else committed)
      else (if s \<le> alpha then - INFINITE e else alpha,
            if beta \<le> s then INFINITE e else beta,
            depth, buffers, st2))"

section \<open>Training: self-play\<close>

text \<open>
  A \<open>GameData\<close> node without its \<open>prev\<close> pointer; the linked list is a list whose head is
  the newest node, and the dummy node that ends it is the empty list. The outcome is one
  of the three values \<open>1.0\<close>, \<open>0.5\<close>, \<open>0.0\<close> the code ever writes.
\<close>

record GameData =
  gd_score :: Score
  gd_fen :: string

datatype Outcome = WhiteWon | DrawnGame | BlackWon

definition createGameData ::
  "('b, 'a, 't, 'ms) env \<Rightarrow> GameData list \<Rightarrow> 'b \<Rightarrow> Score \<Rightarrow> GameData list" where
  "createGameData e previous b score =
     \<lparr>gd_score = (if sideToMove e b \<noteq> WHITE then - score else score), gd_fen = getFEN e b\<rparr>
     # previous"

definition writeGameData :: "GameData list \<Rightarrow> Outcome \<Rightarrow> (string \<times> Score \<times> Outcome) list" where
  "writeGameData data outcome = map (\<lambda>d. (gd_fen d, gd_score d, outcome)) data"

definition isCheckmate :: "('b, 'a, 't, 'ms) env \<Rightarrow> Score \<Rightarrow> bool" where
  "isCheckmate e score \<longleftrightarrow> score \<le> - GUARANTEE_CHECKMATE e \<or> score \<ge> GUARANTEE_CHECKMATE e"

definition isStalemate :: "('b, 'a, 't, 'ms) env \<Rightarrow> Score \<Rightarrow> Move \<Rightarrow> bool" where
  "isStalemate e score bestMv \<longleftrightarrow> score = DRAW e \<and> bestMv = NO_MOVE"

definition isEndOfGame :: "('b, 'a, 't, 'ms) env \<Rightarrow> 'b \<Rightarrow> MoveObject \<Rightarrow> bool" where
  "isEndOfGame e b moveObj \<longleftrightarrow>
     isCheckmate e (mo_score moveObj) \<or> isStalemate e (mo_score moveObj) (mo_move moveObj)
     \<or> isDraw e b"

text \<open>Lines 150 to 153 of \<open>playGame\<close>: the list after the searched position.\<close>

definition recordPosition ::
  "('b, 'a, 't, 'ms) env \<Rightarrow> GameData list \<Rightarrow> 'b \<Rightarrow> MoveObject \<Rightarrow> GameData list" where
  "recordPosition e previous b moveObj =
     (if \<not> getCheckers e b \<and> \<not> isCheckmate e (mo_score moveObj) \<and> \<not> insufficientMaterial e b
      then createGameData e previous b (mo_score moveObj)
      else previous)"

definition gameOutcome :: "('b, 'a, 't, 'ms) env \<Rightarrow> 'b \<Rightarrow> MoveObject \<Rightarrow> Outcome" where
  "gameOutcome e b moveObj =
     (if isCheckmate e (mo_score moveObj) then
        let winner = (if mo_score moveObj > 0 then sideToMove e b
                      else (if sideToMove e b = WHITE then BLACK else WHITE))
        in (if winner \<noteq> WHITE then BlackWon else WhiteWon)
      else DrawnGame)"

text \<open>
  \<open>playGame\<close>: \<open>n\<close> bounds the number of positions searched, \<open>m\<close> and \<open>k\<close> are the fuel
  of each search. The result is the file after \<open>writeGameData\<close> and the final state.
\<close>

primrec playGame ::
  "nat \<Rightarrow> nat \<Rightarrow> nat \<Rightarrow> ('b, 'a, 't, 'ms) env \<Rightarrow> ('b, 'a, 't) machine \<Rightarrow> GameData list
   \<Rightarrow> (string \<times> Score \<times> Outcome) list
   \<Rightarrow> ((string \<times> Score \<times> Outcome) list \<times> ('b, 'a, 't) machine) option" where
  "playGame 0 m k e st previous file = None"
| "playGame (Suc n) m k e st previous file =
     (case startSearch m k e st of
        None \<Rightarrow> None
      | Some st1 \<Rightarrow>
          let previous1 = recordPosition e previous (board st1) (bestMove st1) in
          if isEndOfGame e (board st1) (bestMove st1)
          then Some (file @ writeGameData previous1 (gameOutcome e (board st1) (bestMove st1)), st1)
          else
            (case makeMove e (board st1) (accumulator st1 0) (mo_move (bestMove st1)) of
               (b, a) \<Rightarrow>
                 playGame n m k e (st1\<lparr>board := b, accumulator := (accumulator st1)(0 := a)\<rparr>)
                   previous1 file))"

section \<open>Relations between the state before and after a search\<close>

text \<open>
  \<open>traceExt P s t\<close>: from \<open>s\<close> to \<open>t\<close> the trace has only grown, by events that satisfy
  \<open>P\<close>. \<open>qsInvariant\<close> and \<open>searchInvariant\<close> collect what a relation must satisfy to hold
  between the entry and the return of \<open>quiescenceSearch\<close> and of \<open>alphaBeta\<close>: it is
  reflexive and transitive, every single state change of a node keeps it, and it is
  restored by \<open>undoMove; ply--\<close> after \<open>ply++; makeMove\<close>.
\<close>

definition traceExt ::
  "(event \<Rightarrow> bool) \<Rightarrow> ('b, 'a, 't) machine \<Rightarrow> ('b, 'a, 't) machine \<Rightarrow> bool" where
  "traceExt P s t \<longleftrightarrow> (\<exists>new. trace t = trace s @ new \<and> list_all P new)"

definition qsInvariant ::
  "('b, 'a, 't, 'ms) env \<Rightarrow> (('b, 'a, 't) machine \<Rightarrow> ('b, 'a, 't) machine \<Rightarrow> bool) \<Rightarrow> bool" where
  "qsInvariant e R \<longleftrightarrow>
     (\<forall>s. R s s) \<and> (\<forall>s t u. R s t \<longrightarrow> R t u \<longrightarrow> R s u) \<and> (\<forall>s. R s (countNode s))
     \<and> (\<forall>cur m s t. R (descend e cur m s) t \<longrightarrow> R s (ascend e m t))"

definition searchInvariant ::
  "('b, 'a, 't, 'ms) env \<Rightarrow> (('b, 'a, 't) machine \<Rightarrow> ('b, 'a, 't) machine \<Rightarrow> bool) \<Rightarrow> bool" where
  "searchInvariant e R \<longleftrightarrow>
     qsInvariant e R \<and> (\<forall>k s. R s (resetPV k s)) \<and> (\<forall>s. R s (snd (outOfTime e s)))
     \<and> (\<forall>m k c s. R s (storePV m k c s))
     \<and> (\<forall>pe key m d b x y s. \<not> stop s \<longrightarrow> R s (saveTT e pe key m d b x y s))
     \<and> (\<forall>cur s t. R (descendNull e cur s) t \<longrightarrow> R s (ascendNull e t))"

text \<open>
  \<open>selectorEnds e b j ms\<close>: on board \<open>b\<close> the move selector \<open>ms\<close> hands out \<open>NO_MOVE\<close>
  within its next \<open>j\<close> answers.
\<close>

primrec selectorEnds :: "('b, 'a, 't, 'ms) env \<Rightarrow> 'b \<Rightarrow> nat \<Rightarrow> 'ms \<Rightarrow> bool" where
  "selectorEnds e b 0 ms = False"
| "selectorEnds e b (Suc j) ms =
     (case getNextBestMove e b ms of (m, ms1) \<Rightarrow> m = NO_MOVE \<or> selectorEnds e b j ms1)"

text \<open>
  \<open>recorded s t\<close>: from \<open>s\<close> to \<open>t\<close> the trace has grown by exactly what happened to the
  state: one \<open>NodeCounted\<close> per increment of \<open>nodes\<close>, one \<open>Polled\<close> per clock reading, and
  no change of the table without a \<open>TTWrite\<close>.
\<close>

fun isPolled :: "event \<Rightarrow> bool" where
  "isPolled (Polled b) = True"
| "isPolled x = False"

fun isTTWrite :: "event \<Rightarrow> bool" where
  "isTTWrite (TTWrite b) = True"
| "isTTWrite x = False"

definition recorded :: "('b, 'a, 't) machine \<Rightarrow> ('b, 'a, 't) machine \<Rightarrow> bool" where
  "recorded s t \<longleftrightarrow>
     (\<exists>new. trace t = trace s @ new
        \<and> nodes t = nodes s + of_nat (length (filter (\<lambda>x. x = NodeCounted) new))
        \<and> clock t = clock s + length (filter isPolled new)
        \<and> (list_ex isTTWrite new \<or> tt t = tt s))"

section \<open>A small game as an instance\<close>

text \<open>
  A pile of counters: a move takes one or two of them, the side that cannot move has no
  legal move. The table is a map from keys to entries, the clock advances by one
  nanosecond per reading, the move selector is the list of moves still to come.
\<close>

definition toyEnv :: "(nat, int, Key \<Rightarrow> PositionEvaluation option, Move list) env" where
  "toyEnv =
     \<lparr>INFINITE = 32001, CHECKMATE = 32000, GUARANTEE_CHECKMATE = 31000, DRAW = 0,
      clockReading = (\<lambda>k. of_nat k),
      isDraw = (\<lambda>b. False),
      getCheckers = (\<lambda>b. False),
      sideToMove = (\<lambda>b. if even b then WHITE else BLACK),
      evaluation = (\<lambda>a c. a),
      hasNonPawnMaterial = (\<lambda>b c. True),
      insufficientMaterial = (\<lambda>b. False),
      getPositionKey = (\<lambda>b. b),
      pieceTypes = (\<lambda>b sq. 0),
      getToSquare = (\<lambda>m. m),
      getMoveType = (\<lambda>m. OTHER_MOVE_TYPE m),
      createMoveSelector = (\<lambda>b state ttMove. if state = TT_MOVE then [1, 2] else []),
      getNextBestMove = (\<lambda>b ms. case ms of [] \<Rightarrow> (NO_MOVE, []) | m # r \<Rightarrow> (m, r)),
      isLegalMove = (\<lambda>b m. m \<le> b),
      makeMove = (\<lambda>b a m. (b - m, 3 * int m - a)),
      undoMove = (\<lambda>b m. b + m),
      makeNullMove = (\<lambda>b. b),
      undoNullMove = (\<lambda>b. b),
      probeTranspositionTable = (\<lambda>t key. case t key of
          None \<Rightarrow> (\<lparr>pe_slot = key, pe_bestMove = NO_MOVE, pe_depth = 0, pe_bound = UPPER,
                     pe_nodeScore = 0, pe_staticEvaluation = 0\<rparr>, False)
        | Some pe \<Rightarrow> (pe, True)),
      savePositionEvaluation = (\<lambda>t slot key move depth bound nodeScore staticEval.
          t(slot \<mapsto> \<lparr>pe_slot = slot, pe_bestMove = move, pe_depth = depth, pe_bound = bound,
                     pe_nodeScore = nodeScore, pe_staticEvaluation = staticEval\<rparr>)),
      adjustNodeScoreFromTT = (\<lambda>s p. s),
      adjustNodeScoreToTT = (\<lambda>s p. s),
      moveToString = (\<lambda>m. if m = 1 then ''a'' else if m = 2 then ''b'' else ''0''),
      getFEN = (\<lambda>b. replicate b CHR ''p'')\<rparr>"

definition toyStart :: "nat \<Rightarrow> 64 word \<Rightarrow> (nat, int, Key \<Rightarrow> PositionEvaluation option) machine" where
  "toyStart b budget =
     \<lparr>accumulator = (\<lambda>i. 0), board = b, tt = (\<lambda>k. None), startNs = 0,
      maxSearchTimeNs = budget, nodes = 0, bestMove = \<lparr>mo_move = NO_MOVE, mo_score = 0\<rparr>,
      ply = 0, print = True, stop = False,
      helpers = (\<lambda>i j. NO_MOVE), clock = 0, trace = []\<rparr>"

text \<open>A table that answers every probe with the same entry.\<close>

definition toyTable :: "Key \<Rightarrow> PositionEvaluation option" where
  "toyTable = (\<lambda>k. Some \<lparr>pe_slot = k, pe_bestMove = 2, pe_depth = 5, pe_bound = LOWER,
                          pe_nodeScore = 7, pe_staticEvaluation = 1\<rparr>)"


text \<open>The same game with every position a draw by rule.\<close>

definition toyDrawn :: "(nat, int, Key \<Rightarrow> PositionEvaluation option, Move list) env" where
  "toyDrawn = toyEnv\<lparr>isDraw := \<lambda>b. True\<rparr>"

text \<open>
  A table whose entries are too shallow for a cutoff and carry a high static evaluation,
  and one whose entries are too shallow and carry a low one.
\<close>

definition toyTableRFP :: "Key \<Rightarrow> PositionEvaluation option" where
  "toyTableRFP = (\<lambda>k. Some \<lparr>pe_slot = k, pe_bestMove = 1, pe_depth = 0, pe_bound = LOWER,
                             pe_nodeScore = 7, pe_staticEvaluation = 1000\<rparr>)"

definition toyTableHint :: "Key \<Rightarrow> PositionEvaluation option" where
  "toyTableHint = (\<lambda>k. Some \<lparr>pe_slot = k, pe_bestMove = 2, pe_depth = 0, pe_bound = UPPER,
                              pe_nodeScore = 0, pe_staticEvaluation = 1\<rparr>)"

text \<open>The same game with a move selector that hands out the table move first.\<close>

definition toyHint :: "(nat, int, Key \<Rightarrow> PositionEvaluation option, Move list) env" where
  "toyHint = toyEnv\<lparr>createMoveSelector := \<lambda>b state ttMove.
      if state = TT_MOVE
      then (if ttMove = NO_MOVE then [1, 2] else ttMove # removeAll ttMove [1, 2])
      else []\<rparr>"

text \<open>The same game with scores further apart than the aspiration window.\<close>

definition toyWide :: "(nat, int, Key \<Rightarrow> PositionEvaluation option, Move list) env" where
  "toyWide = toyEnv\<lparr>makeMove := \<lambda>b a m. (b - m, 100 * int m - a)\<rparr>"

text \<open>The state in which \<open>startSearch\<close> enters its loop.\<close>

definition toyLoopEntry ::
  "nat \<Rightarrow> 64 word \<Rightarrow> (nat, int, Key \<Rightarrow> PositionEvaluation option) machine" where
  "toyLoopEntry b budget =
     (snd (getTimeNs toyEnv (toyStart b budget)))
       \<lparr>startNs := fst (getTimeNs toyEnv (toyStart b budget))\<rparr>"

section \<open>Properties\<close>

subsection \<open>What every search keeps\<close>

lemma qsInvariant_trans: "qsInvariant e R \<Longrightarrow> R s t \<Longrightarrow> R t u \<Longrightarrow> R s u"
  unfolding qsInvariant_def by blast

lemma searchInvariant_qs: "searchInvariant e R \<Longrightarrow> qsInvariant e R"
  by (simp add: searchInvariant_def)

lemma searchInvariant_trans: "searchInvariant e R \<Longrightarrow> R s t \<Longrightarrow> R t u \<Longrightarrow> R s u"
  by (rule qsInvariant_trans[OF searchInvariant_qs])

lemma loopFuel_rule:
  assumes "loopFuel n body s = Some r" and "I s"
    and "\<And>s s1. I s \<Longrightarrow> body s = Some (Continue s1) \<Longrightarrow> I s1"
    and "\<And>s r. I s \<Longrightarrow> body s = Some (Return r) \<Longrightarrow> Q r"
  shows "Q r"
  using assms(1,2)
proof (induction n arbitrary: s)
  case 0
  then show ?case by simp
next
  case (Suc n)
  show ?case
  proof (cases "body s")
    case None
    with Suc.prems show ?thesis by simp
  next
    case (Some a)
    show ?thesis
    proof (cases a)
      case (Return r1)
      with Some Suc.prems have "r1 = r" by simp
      with Return Some assms(4)[OF Suc.prems(2)] show ?thesis by simp
    next
      case (Continue s1)
      with Some Suc.prems have "loopFuel n body s1 = Some r" by simp
      moreover have "I s1" using assms(3)[OF Suc.prems(2)] Some Continue by simp
      ultimately show ?thesis by (rule Suc.IH)
    qed
  qed
qed

lemma qsStep_inv:
  assumes inv: "qsInvariant e R"
    and rec: "\<forall>a b k s x s1. qs a b k s = Some (x, s1) \<longrightarrow> R s s1"
    and step: "qsStep qs e beta cur sh (alpha, bestScore, ms, st) = Some r"
  shows "case r of Return (x, st1) \<Rightarrow> R st st1 | Continue (a, b, m, st1) \<Rightarrow> R st st1"
proof -
  have refl: "R st st" using inv by (simp add: qsInvariant_def)
  have br: "\<And>m t. R (descend e cur m st) t \<Longrightarrow> R st (ascend e m t)"
    using inv by (simp add: qsInvariant_def)
  show ?thesis
    using step refl
    by (auto simp: qsStep_def Let_def split: prod.splits if_splits option.splits
             dest!: rec[rule_format] intro!: br)
qed

lemma quiescenceSearch_inv:
  assumes inv: "qsInvariant e R"
  shows "quiescenceSearch n e alpha beta sh st = Some (x, st1) \<Longrightarrow> R st st1"
proof (induction n arbitrary: alpha beta sh st x st1)
  case 0
  then show ?case by simp
next
  case (Suc n)
  have cnt: "R st (countNode st)" using inv by (simp add: qsInvariant_def)
  have trans: "\<And>s t u. R s t \<Longrightarrow> R t u \<Longrightarrow> R s u"
    using inv unfolding qsInvariant_def by blast
  have ih: "\<forall>a b k s x s1. quiescenceSearch n e a b k s = Some (x, s1) \<longrightarrow> R s s1"
    using Suc.IH by blast
  show ?case
  proof (cases "isDraw e (board (countNode st))")
    case True
    with Suc.prems cnt show ?thesis by (simp add: Let_def)
  next
    case False
    define bs where "bs = (if getCheckers e (board (countNode st))
       then - CHECKMATE e + uint (ply (countNode st))
       else evaluation e (accumulator (countNode st) (unat (ply (countNode st))))
              (sideToMove e (board (countNode st))))"
    show ?thesis
    proof (cases "bs > alpha \<and> bs \<ge> beta")
      case True
      with Suc.prems False cnt show ?thesis by (simp add: Let_def bs_def)
    next
      case nocut: False
      from Suc.prems False nocut obtain s0 where
        loop: "loopFuel n (qsStep (quiescenceSearch n e) e beta (unat (ply (countNode st))) sh)
                 s0 = Some (x, st1)" and s0: "snd (snd (snd s0)) = countNode st"
        by (simp add: Let_def bs_def split: if_splits)
      have "case (x, st1) of (y, t) \<Rightarrow> R st t"
      proof (rule loopFuel_rule[OF loop, where I = "\<lambda>s. R st (snd (snd (snd s)))"])
        show "R st (snd (snd (snd s0)))" using s0 cnt by simp
      next
        fix s s1
        assume a: "R st (snd (snd (snd s)))"
          and b: "qsStep (quiescenceSearch n e) e beta (unat (ply (countNode st))) sh s
                  = Some (Continue s1)"
        obtain a1 b1 m1 t1 where s: "s = (a1, b1, m1, t1)" by (cases s) auto
        obtain a2 b2 m2 t2 where s1: "s1 = (a2, b2, m2, t2)" by (cases s1) auto
        from qsStep_inv[OF inv ih b[unfolded s]] s1 have "R t1 t2" by simp
        with a s s1 show "R st (snd (snd (snd s1)))" by (auto intro: trans)
      next
        fix s r
        assume a: "R st (snd (snd (snd s)))"
          and b: "qsStep (quiescenceSearch n e) e beta (unat (ply (countNode st))) sh s
                  = Some (Return r)"
        obtain a1 b1 m1 t1 where s: "s = (a1, b1, m1, t1)" by (cases s) auto
        obtain y t where r: "r = (y, t)" by (cases r) auto
        from qsStep_inv[OF inv ih b[unfolded s]] r have "R t1 t" by simp
        with a s r show "case r of (y, t) \<Rightarrow> R st t" by (auto intro: trans)
      qed
      then show ?thesis by simp
    qed
  qed
qed

lemma pvSearch_inv:
  assumes trans: "\<forall>s t u. R s t \<longrightarrow> R t u \<longrightarrow> R s u"
    and rec: "\<forall>a b d nd k s x s1. ab a b d nd k s = Some (x, s1) \<longrightarrow> R s s1"
    and run: "pvSearch ab alpha beta depth node legalMoves child st = Some (x, st1)"
  shows "R st st1"
  using run
  by (auto simp: pvSearch_def Let_def split: if_splits option.splits prod.splits
           dest!: rec[rule_format] intro: trans[rule_format])

lemma abStep_inv:
  assumes inv: "searchInvariant e R"
    and rec: "\<forall>a b d nd k s x s1. ab a b d nd k s = Some (x, s1) \<longrightarrow> R s s1"
    and step: "abStep ab e beta depth node sh pe positionKey checkers staticEval cur
                 (alpha, legalMoves, bestScore, bestMv, ms, st) = Some r"
  shows "case r of Return (x, st1) \<Rightarrow> R st st1 | Continue (a, l, b, m, ms1, st1) \<Rightarrow> R st st1"
proof -
  have refl: "R st st" using inv by (simp add: searchInvariant_def qsInvariant_def)
  have trans: "\<And>s t u. R s t \<Longrightarrow> R t u \<Longrightarrow> R s u"
    using inv by (rule searchInvariant_trans)
  have trans': "\<forall>s t u. R s t \<longrightarrow> R t u \<longrightarrow> R s u"
    using trans by blast
  have br: "\<And>m t. R (descend e cur m st) t \<Longrightarrow> R st (ascend e m t)"
    using inv by (simp add: searchInvariant_def qsInvariant_def)
  have pv: "\<And>m k c s. R s (storePV m k c s)"
    using inv by (simp add: searchInvariant_def)
  have sv: "\<And>pe key m d b x y s. \<not> stop s \<Longrightarrow> R s (saveTT e pe key m d b x y s)"
    using inv by (simp add: searchInvariant_def)
  obtain move ms1 where nx: "getNextBestMove e (board st) ms = (move, ms1)"
    by (cases "getNextBestMove e (board st) ms") auto
  define fut where "fut \<longleftrightarrow> (node = NON_PV \<or> Suc legalMoves > 1) \<and> depth < 4 \<and> \<not> checkers
     \<and> \<not> isInteresting e (board st) move
     \<and> getReverseFutilityPruningScore staticEval depth \<le> alpha"
  show ?thesis
  proof (cases "move = NO_MOVE \<or> \<not> isLegalMove e (board st) move \<or> fut")
    case True
    with step nx have "r = Return (LoopDone legalMoves bestScore bestMv, st)
       \<or> r = Continue (alpha, legalMoves, bestScore, bestMv, ms1, st)
       \<or> r = Continue (alpha, Suc legalMoves, bestScore, bestMv, ms1, st)"
      unfolding abStep_def Let_def fut_def by (simp split: if_splits)
    with refl show ?thesis by auto
  next
    case False
    then have c: "move \<noteq> NO_MOVE" "isLegalMove e (board st) move" "\<not> fut" by auto
    from c(3) have nf: "((node = NON_PV \<or> Suc legalMoves > 1) \<and> depth < 4 \<and> \<not> checkers
     \<and> \<not> isInteresting e (board st) move
     \<and> getReverseFutilityPruningScore staticEval depth \<le> alpha) = False"
      unfolding fut_def by (rule eq_False[THEN iffD2])
    from step have step1:
      "(case pvSearch ab alpha beta depth node (Suc legalMoves) (Suc sh) (descend e cur move st) of
               None \<Rightarrow> None
             | Some (score, st1) \<Rightarrow>
                 if score > bestScore then
                   if score > alpha then
                     if score \<ge> beta
                     then Some (Return (BetaCutoff score,
                            if \<not> stop (ascend e move st1)
                            then saveTT e pe positionKey move depth LOWER
                                   (adjustNodeScoreToTT e score (ply (ascend e move st1))) staticEval
                                   (ascend e move st1)
                            else ascend e move st1))
                     else Some (Continue (score, Suc legalMoves, score, move, ms1,
                                  storePV move sh (Suc sh) (ascend e move st1)))
                   else Some (Continue (alpha, Suc legalMoves, score, move, ms1, ascend e move st1))
                 else Some (Continue (alpha, Suc legalMoves, bestScore, bestMv, ms1,
                              ascend e move st1))) = Some r"
      unfolding abStep_def prod.case nx Let_def nf
      using c(1,2) by (simp only: if_False not_True_eq_False simp_thms)
    then obtain score t where
      call: "pvSearch ab alpha beta depth node (Suc legalMoves) (Suc sh) (descend e cur move st)
             = Some (score, t)"
      by (cases "pvSearch ab alpha beta depth node (Suc legalMoves) (Suc sh) (descend e cur move st)")
         auto
    define st2 where "st2 = ascend e move t"
    from pvSearch_inv[OF trans' rec call] have "R (descend e cur move st) t" .
    then have up: "R st st2" unfolding st2_def by (rule br)
    have up_pv: "R st (storePV move sh (Suc sh) st2)"
      using up pv by (blast intro: trans)
    have up_sv: "R st (if \<not> stop st2
                            then saveTT e pe positionKey move depth LOWER
                                   (adjustNodeScoreToTT e score (ply st2)) staticEval st2
                            else st2)"
      using up sv by (auto intro: trans)
    from step1 call have "r = Return (BetaCutoff score, if \<not> stop st2
                            then saveTT e pe positionKey move depth LOWER
                                   (adjustNodeScoreToTT e score (ply st2)) staticEval st2
                            else st2)
       \<or> r = Continue (score, Suc legalMoves, score, move, ms1, storePV move sh (Suc sh) st2)
       \<or> r = Continue (alpha, Suc legalMoves, score, move, ms1, st2)
       \<or> r = Continue (alpha, Suc legalMoves, bestScore, bestMv, ms1, st2)"
      by (auto simp: st2_def split: if_splits)
    with up up_pv up_sv show ?thesis by (elim disjE) simp_all
  qed
qed

lemma finishNode_inv:
  assumes inv: "searchInvariant e R"
  shows "R st (snd (finishNode e checkers depth oldAlpha staticEval pe positionKey
                     legalMoves bestScore bestMv st))"
  using inv by (simp add: finishNode_def Let_def searchInvariant_def qsInvariant_def)

lemma searchMoves_inv:
  assumes inv: "searchInvariant e R"
    and rec: "\<forall>a b d nd k s x s1. ab a b d nd k s = Some (x, s1) \<longrightarrow> R s s1"
    and run: "searchMoves ab n e alpha beta depth node sh pe positionKey ttMove checkers
                staticEval st = Some (x, st1)"
  shows "R st st1"
proof -
  have refl: "R st st" using inv by (simp add: searchInvariant_def qsInvariant_def)
  have trans: "\<And>s t u. R s t \<Longrightarrow> R t u \<Longrightarrow> R s u"
    using inv by (rule searchInvariant_trans)
  show ?thesis
  proof (cases "node = NON_PV \<and> \<not> checkers \<and> staticEval - getRFPMargin depth \<ge> beta")
    case True
    with run refl show ?thesis by (simp add: searchMoves_def)
  next
    case False
    define body where "body = abStep ab e beta depth node sh pe positionKey checkers staticEval
                                (unat (ply st))"
    define s0 where "s0 = (alpha, 0::nat, - INFINITE e, NO_MOVE,
                           createMoveSelector e (board st) TT_MOVE ttMove, st)"
    from run False obtain ex t where
      loop: "loopFuel n body s0 = Some (ex, t)"
      and fin: "(case ex of BetaCutoff score \<Rightarrow> (x, st1) = (score, t)
                 | LoopDone l b m \<Rightarrow>
                     (x, st1) = finishNode e checkers depth alpha staticEval pe positionKey l b m t)"
      by (auto simp: searchMoves_def body_def s0_def split: option.splits loopExit.splits)
    have "case (ex, t) of (ex1, t1) \<Rightarrow> R st t1"
    proof (rule loopFuel_rule[OF loop, where I = "\<lambda>s. R st (snd (snd (snd (snd (snd s)))))"])
      show "R st (snd (snd (snd (snd (snd s0)))))" using refl by (simp add: s0_def)
    next
      fix s s1
      assume a: "R st (snd (snd (snd (snd (snd s)))))" and b: "body s = Some (Continue s1)"
      obtain a1 l1 b1 m1 ms1 t1 where s: "s = (a1, l1, b1, m1, ms1, t1)" by (cases s) auto
      obtain a2 l2 b2 m2 ms2 t2 where s1: "s1 = (a2, l2, b2, m2, ms2, t2)" by (cases s1) auto
      from abStep_inv[OF inv rec b[unfolded s body_def]] s1 have "R t1 t2" by simp
      with a s s1 show "R st (snd (snd (snd (snd (snd s1)))))" by (auto intro: trans)
    next
      fix s r
      assume a: "R st (snd (snd (snd (snd (snd s)))))" and b: "body s = Some (Return r)"
      obtain a1 l1 b1 m1 ms1 t1 where s: "s = (a1, l1, b1, m1, ms1, t1)" by (cases s) auto
      obtain y t2 where r: "r = (y, t2)" by (cases r) auto
      from abStep_inv[OF inv rec b[unfolded s body_def]] r have "R t1 t2" by simp
      with a s r show "case r of (ex1, t1) \<Rightarrow> R st t1" by (auto intro: trans)
    qed
    then have rt: "R st t" by simp
    show ?thesis
    proof (cases ex)
      case (BetaCutoff score)
      with fin rt show ?thesis by simp
    next
      case (LoopDone l b m)
      with fin have "finishNode e checkers depth alpha staticEval pe positionKey l b m t = (x, st1)"
        by simp
      then have "st1 = snd (finishNode e checkers depth alpha staticEval pe positionKey l b m t)"
        by simp
      with rt finishNode_inv[OF inv] show ?thesis by (auto intro: trans)
    qed
  qed
qed

lemma searchNode_inv:
  assumes inv: "searchInvariant e R"
    and rec: "\<forall>a b d nd k s x s1. ab a b d nd k s = Some (x, s1) \<longrightarrow> R s s1"
    and run: "searchNode ab n e alpha beta depth node sh pe hasEvaluation positionKey ttMove st
              = Some (x, st1)"
  shows "R st st1"
proof -
  have trans: "\<And>s t u. R s t \<Longrightarrow> R t u \<Longrightarrow> R s u"
    using inv by (rule searchInvariant_trans)
  have br: "\<And>cur t. R (descendNull e cur st) t \<Longrightarrow> R st (ascendNull e t)"
    using inv by (simp add: searchInvariant_def)
  note sm = searchMoves_inv[OF inv rec]
  define checkers where "checkers = getCheckers e (board st)"
  define staticEval where "staticEval = (if checkers then - INFINITE e
                        else if hasEvaluation then pe_staticEvaluation pe
                        else evaluation e (accumulator st (unat (ply st))) (sideToMove e (board st)))"
  show ?thesis
  proof (cases "node = NON_PV \<and> \<not> checkers \<and> depth > 3 \<and> staticEval \<ge> beta
         \<and> hasNonPawnMaterial e (board st) (sideToMove e (board st))")
    case False
    with run have "searchMoves ab n e alpha beta depth node sh pe positionKey ttMove
             checkers staticEval st = Some (x, st1)"
      unfolding searchNode_def Let_def checkers_def[symmetric] staticEval_def[symmetric]
      by simp
    then show ?thesis by (rule sm)
  next
    case True
    with run have run1:
      "(case ab (- beta) (- beta + 1) (depth - 4) NON_PV (Suc sh) (descendNull e (unat (ply st)) st) of
           None \<Rightarrow> None
         | Some (r, t) \<Rightarrow>
             if - r \<ge> beta then Some (- r, ascendNull e t)
             else searchMoves ab n e alpha beta depth node sh pe positionKey ttMove
                    checkers staticEval (ascendNull e t)) = Some (x, st1)"
      unfolding searchNode_def Let_def checkers_def[symmetric] staticEval_def[symmetric]
      by simp
    then obtain r t where
      call: "ab (- beta) (- beta + 1) (depth - 4) NON_PV (Suc sh) (descendNull e (unat (ply st)) st)
             = Some (r, t)"
      by (auto split: option.splits)
    from rec[rule_format, OF call] have up: "R st (ascendNull e t)" by (rule br)
    show ?thesis
    proof (cases "- r \<ge> beta")
      case True
      with run1 call up show ?thesis by simp
    next
      case False
      with run1 call have "searchMoves ab n e alpha beta depth node sh pe positionKey ttMove
                    checkers staticEval (ascendNull e t) = Some (x, st1)" by simp
      from up sm[OF this] show ?thesis by (rule trans)
    qed
  qed
qed

lemma alphaBeta_inv:
  assumes inv: "searchInvariant e R"
  shows "alphaBeta n e alpha beta depth node sh st = Some (x, st1) \<Longrightarrow> R st st1"
proof (induction n arbitrary: alpha beta depth node sh st x st1)
  case 0
  then show ?case by simp
next
  case (Suc n)
  have qinv: "qsInvariant e R" using inv by (simp add: searchInvariant_def)
  have trans: "\<And>s t u. R s t \<Longrightarrow> R t u \<Longrightarrow> R s u"
    using inv by (rule searchInvariant_trans)
  define s1 where "s1 = countNode (resetPV sh st)"
  obtain timeout s2 where oot: "outOfTime e s1 = (timeout, s2)" by (cases "outOfTime e s1") auto
  have r0: "R st (resetPV sh st)" using inv by (simp add: searchInvariant_def)
  have r1: "R st s1"
    using r0 qinv unfolding qsInvariant_def s1_def by blast
  have "R s1 (snd (outOfTime e s1))"
    using inv by (simp add: searchInvariant_def)
  with r1 oot have r2: "R st s2" by (auto intro: trans)
  have ih: "\<forall>a b d nd k s x s1. alphaBeta n e a b d nd k s = Some (x, s1) \<longrightarrow> R s s1"
    using Suc.IH by blast
  note sn = searchNode_inv[OF inv ih]
  note qs = quiescenceSearch_inv[OF qinv]
  show ?case
  proof (cases "depth = 0")
    case True
    with Suc.prems have "quiescenceSearch n e alpha beta sh (resetPV sh st) = Some (x, st1)"
      by (simp add: Let_def)
    from qs[OF this] r0 show ?thesis by (rule trans[rotated])
  next
    case d: False
    show ?thesis
    proof (cases "node \<noteq> ROOT \<and> isDraw e (board s1)")
      case True
      with Suc.prems d r1 show ?thesis by (simp add: Let_def s1_def)
    next
      case nd: False
      show ?thesis
      proof (cases timeout)
        case True
        with Suc.prems d nd oot r2 show ?thesis by (simp add: Let_def s1_def[symmetric])
      next
        case nt: False
        obtain pe hasEvaluation where
          pr: "probeTranspositionTable e (tt s2) (getPositionKey e (board s2)) = (pe, hasEvaluation)"
          by (cases "probeTranspositionTable e (tt s2) (getPositionKey e (board s2))") auto
        show ?thesis
        proof (cases "ttCutoff e (node \<noteq> NON_PV) hasEvaluation pe depth alpha beta (ply s2)")
          case (Some sc)
          with Suc.prems d nd oot nt pr r2 show ?thesis by (simp add: Let_def s1_def[symmetric])
        next
          case None
          with Suc.prems d nd oot nt pr have
            "searchNode (alphaBeta n e) n e alpha beta depth node sh pe hasEvaluation
               (getPositionKey e (board s2)) (if hasEvaluation then pe_bestMove pe else NO_MOVE) s2
             = Some (x, st1)"
            by (simp add: Let_def s1_def[symmetric])
          from r2 sn[OF this] show ?thesis by (rule trans)
        qed
      qed
    qed
  qed
qed

subsection \<open>Ply and trace across a search\<close>

lemma traceExt_refl: "traceExt P s s"
  by (simp add: traceExt_def)

lemma traceExt_trans: "traceExt P s t \<Longrightarrow> traceExt P t u \<Longrightarrow> traceExt P s u"
  by (auto simp: traceExt_def)

lemma traceExt_same: "trace t = trace s \<Longrightarrow> traceExt P s t"
  by (simp add: traceExt_def)

lemma traceExt_one: "trace t = trace s @ [x] \<Longrightarrow> P x \<Longrightarrow> traceExt P s t"
  by (simp add: traceExt_def)

lemma trace_descend [simp]: "trace (descend e cur m s) = trace s"
  by (simp add: descend_def split: prod.splits)

lemma trace_ascend [simp]: "trace (ascend e m s) = trace s"
  by (simp add: ascend_def)

lemma tt_descend [simp]: "tt (descend e cur m s) = tt s"
  by (simp add: descend_def split: prod.splits)

lemma tt_ascend [simp]: "tt (ascend e m s) = tt s"
  by (simp add: ascend_def)

lemma ply_descend [simp]: "ply (descend e cur m s) = ply s + 1"
  by (simp add: descend_def split: prod.splits)

lemma ply_ascend [simp]: "ply (ascend e m s) = ply s - 1"
  by (simp add: ascend_def)

lemma qsInvariant_noWrite:
  assumes "P NodeCounted"
  shows "qsInvariant e (\<lambda>s t. tt t = tt s \<and> traceExt P s t)"
  unfolding qsInvariant_def
proof (intro conjI allI impI)
  fix s :: "('a, 'b, 'c) machine"
  show "traceExt P s (countNode s)"
    using assms by (intro traceExt_one[where x = NodeCounted]) (simp_all add: countNode_def)
  show "tt (countNode s) = tt s" by (simp add: countNode_def)
next
  fix cur m and s t :: "('a, 'b, 'c) machine"
  assume a: "tt t = tt (descend e cur m s) \<and> traceExt P (descend e cur m s) t"
  then show "tt (ascend e m t) = tt s" by simp
  from a show "traceExt P s (ascend e m t)" by (simp add: traceExt_def)
qed (auto simp: traceExt_refl intro: traceExt_trans)

lemma searchInvariant_traceExt:
  assumes "P NodeCounted" and "\<And>b. P (Polled b)" and "P (TTWrite False)"
  shows "searchInvariant e (traceExt P)"
  unfolding searchInvariant_def qsInvariant_def
proof (intro conjI allI impI)
  fix s :: "('a, 'b, 'c) machine"
  show "traceExt P s (countNode s)"
    using assms by (intro traceExt_one[where x = NodeCounted]) (simp_all add: countNode_def)
  show "traceExt P s (snd (outOfTime e s))"
    using assms(2) by (simp add: traceExt_def outOfTime_def getTimeNs_def Let_def)
next
  fix cur m and s t :: "('a, 'b, 'c) machine"
  assume "traceExt P (descend e cur m s) t"
  then show "traceExt P s (ascend e m t)" by (simp add: traceExt_def)
next
  fix cur and s t :: "('a, 'b, 'c) machine"
  assume "traceExt P (descendNull e cur s) t"
  then show "traceExt P s (ascendNull e t)"
    by (simp add: traceExt_def descendNull_def ascendNull_def)
next
  fix pe key m d b x y and s :: "('a, 'b, 'c) machine"
  assume "\<not> stop s"
  then show "traceExt P s (saveTT e pe key m d b x y s)"
    using assms(3) by (simp add: traceExt_def saveTT_def)
qed (auto simp: traceExt_refl resetPV_def storePV_def intro: traceExt_trans traceExt_same)

lemma searchInvariant_ply: "searchInvariant e (\<lambda>s t. ply t = ply s)"
  unfolding searchInvariant_def qsInvariant_def
  by (simp add: countNode_def resetPV_def storePV_def saveTT_def outOfTime_def getTimeNs_def
        descendNull_def ascendNull_def Let_def)

text \<open>
  C8: whenever \<open>alphaBeta\<close> or \<open>quiescenceSearch\<close> returns, by whichever return path,
  \<open>st->ply\<close> has the value it had at entry.
\<close>

theorem ply_restored:
  "(alphaBeta n e alpha beta depth node sh st = Some (x, st1) \<longrightarrow> ply st1 = ply st)
   \<and> (quiescenceSearch n e alpha beta sh st = Some (y, st2) \<longrightarrow> ply st2 = ply st)"
  using alphaBeta_inv[OF searchInvariant_ply]
    quiescenceSearch_inv[OF searchInvariant_qs[OF searchInvariant_ply]]
  by blast

lemma toy_alphaBeta_runs:
  "\<not> Option.is_none (alphaBeta 12 toyEnv (- 32001) 32001 2 ROOT 0 (toyStart 3 1000))"
  by code_simp

lemma toy_quiescence_runs:
  "\<not> Option.is_none (quiescenceSearch 12 toyEnv (- 32001) 32001 0 (toyStart 3 1000))"
  by code_simp

theorem ply_restored_witness:
  "\<exists>x st1 y st2.
     alphaBeta 12 toyEnv (- 32001) 32001 2 ROOT 0 (toyStart 3 1000) = Some (x, st1)
     \<and> ply st1 = ply (toyStart 3 1000)
     \<and> quiescenceSearch 12 toyEnv (- 32001) 32001 0 (toyStart 3 1000) = Some (y, st2)
     \<and> ply st2 = ply (toyStart 3 1000)"
proof -
  obtain x st1 where a: "alphaBeta 12 toyEnv (- 32001) 32001 2 ROOT 0 (toyStart 3 1000) = Some (x, st1)"
    using toy_alphaBeta_runs by (auto simp: Option.is_none_def)
  obtain y st2 where q: "quiescenceSearch 12 toyEnv (- 32001) 32001 0 (toyStart 3 1000) = Some (y, st2)"
    using toy_quiescence_runs by (auto simp: Option.is_none_def)
  from a q ply_restored[THEN conjunct1, rule_format, OF a]
    ply_restored[THEN conjunct2, rule_format, OF q]
  show ?thesis by blast
qed

subsection \<open>The printed score\<close>

text \<open>
  C4, as the code has it: \<open>printSearch\<close> prints \<open>mate\<close> exactly for the scores with
  \<open>|s| \<ge> GUARANTEE_CHECKMATE\<close>, with the value \<open>(CHECKMATE - s + 1) / 2\<close> for the positive
  ones and \<open>(-CHECKMATE - s) / 2\<close>, without the \<open>+ 1\<close>, for the negative ones (C's
  division, which truncates towards zero); every other score is printed as \<open>cp\<close> with the
  raw score.
\<close>

theorem printSearch_score:
  "\<exists>n nps t. trace (printSearch e depth s pv st) = trace st @
     [Printed (Info depth
        (if \<bar>s\<bar> \<ge> GUARANTEE_CHECKMATE e then ''mate'' else ''cp'')
        (if s \<ge> GUARANTEE_CHECKMATE e then (CHECKMATE e - s + 1) sdiv 2
         else if s \<le> - GUARANTEE_CHECKMATE e then (- CHECKMATE e - s) sdiv 2
         else s) n nps t pv)]"
proof -
  have ty: "scoreType e s = (if \<bar>s\<bar> \<ge> GUARANTEE_CHECKMATE e then ''mate'' else ''cp'')"
    unfolding scoreType_def by (simp add: abs_if)
  show ?thesis
    unfolding printSearch_def getTimeNs_def printedScore_def ty
    by (simp add: Let_def)
qed

text \<open>
  C4 as stated fails for a side that is mated in two plies: the score \<open>-CHECKMATE + 2\<close>
  is printed as \<open>mate -1\<close>, while \<open>(-CHECKMATE - s + 1) / 2\<close> is 0.
\<close>

theorem printSearch_score_counterexample:
  "\<bar>- 31998\<bar> \<ge> GUARANTEE_CHECKMATE toyEnv
   \<and> trace (printSearch toyEnv 1 (- 31998) ''a'' (toyStart 3 1000))
       = [Printed (Info 1 ''mate'' (- 1) 0 0 0 ''a'')]
   \<and> (- CHECKMATE toyEnv - (- 31998) + 1) sdiv 2 = (0 :: int)"
  by (simp add: printSearch_def getTimeNs_def printedScore_def scoreType_def toyEnv_def
        toyStart_def signed_divide_int_def)

subsection \<open>Table writes and the stop flag\<close>

lemma outOfTime_traceExt:
  assumes "\<And>b. P (Polled b)"
  shows "traceExt P s (snd (outOfTime e s))"
  using assms by (simp add: traceExt_def outOfTime_def getTimeNs_def Let_def)

lemma printSearch_traceExt:
  assumes "\<And>l. P (Printed l)"
  shows "traceExt P s (printSearch e d x pv s)"
  using assms by (simp add: traceExt_def printSearch_def getTimeNs_def Let_def)

lemma searchStep_traceExt:
  assumes P: "P NodeCounted" "\<And>b. P (Polled b)" "P (TTWrite False)" "\<And>l. P (Printed l)"
    and step: "searchStep k e (alpha, beta, depth, buffers, st) = Some r"
  shows "case r of Return (b, t) \<Rightarrow> traceExt P st t
         | Continue (a1, b1, d1, bf1, t) \<Rightarrow> traceExt P st t"
proof -
  obtain timeout st1 where oot: "outOfTime e st = (timeout, st1)" by (cases "outOfTime e st") auto
  have e1: "traceExt P st st1" using outOfTime_traceExt[of P st e] P(2) oot by simp
  show ?thesis
  proof (cases "depth = 0 \<or> timeout")
    case True
    with step oot e1 show ?thesis
      by (auto simp: searchStep_def traceExt_refl split: if_splits)
  next
    case False
    with step oot obtain score st2 where
      ab: "alphaBeta k e alpha beta depth ROOT 0 st1 = Some (score, st2)"
      by (auto simp: searchStep_def split: option.splits)
    have e2: "traceExt P st st2"
      using alphaBeta_inv[OF searchInvariant_traceExt[of P, OF P(1,2,3)] ab] e1
      by (blast intro: traceExt_trans)
    define st3 where "st3 = st2\<lparr>bestMove := \<lparr>mo_move = helpers st2 0 0, mo_score = score\<rparr>\<rparr>"
    have e3: "traceExt P st st3" using e2 by (simp add: traceExt_def st3_def)
    have e4: "traceExt P st (printSearch e depth score (fst (pvToString e (helpers st3 0))) st3)"
      using e3 printSearch_traceExt[of P st3, OF P(4)] by (blast intro: traceExt_trans)
    from step oot False ab e2 e3 e4 show ?thesis
      by (auto simp: searchStep_def Let_def st3_def split: if_splits)
  qed
qed

lemma startSearch_traceExt:
  assumes P: "P NodeCounted" "\<And>b. P (Polled b)" "P (TTWrite False)" "\<And>l. P (Printed l)"
    and run: "startSearch n k e st = Some st1"
  shows "traceExt P st st1"
proof -
  define s0 where "s0 = (- INFINITE e, INFINITE e, 1 :: Depth,
      None :: (string \<times> string \<times> string) option,
      (snd (getTimeNs e st))\<lparr>startNs := fst (getTimeNs e st)\<rparr>)"
  from run obtain buffers t where
    loop: "loopFuel n (searchStep k e) s0 = Some (buffers, t)"
    and fin: "st1 = (if print t then t\<lparr>trace := trace t @ [Printed (printBestmove buffers)]\<rparr> else t)"
    by (auto simp: startSearch_def s0_def split: prod.splits option.splits)
  have "case (buffers, t) of (b, u) \<Rightarrow> traceExt P st u"
  proof (rule loopFuel_rule[OF loop, where I = "\<lambda>s. traceExt P st (snd (snd (snd (snd s))))"])
    show "traceExt P st (snd (snd (snd (snd s0))))"
      by (simp add: s0_def traceExt_def getTimeNs_def)
  next
    fix s s1
    assume a: "traceExt P st (snd (snd (snd (snd s))))" and b: "searchStep k e s = Some (Continue s1)"
    obtain a1 b1 d1 bf1 t1 where s: "s = (a1, b1, d1, bf1, t1)" by (cases s) auto
    obtain a2 b2 d2 bf2 t2 where s1: "s1 = (a2, b2, d2, bf2, t2)" by (cases s1) auto
    from searchStep_traceExt[OF P b[unfolded s]] s1 have "traceExt P t1 t2" by simp
    with a s s1 show "traceExt P st (snd (snd (snd (snd s1))))" by (auto intro: traceExt_trans)
  next
    fix s r
    assume a: "traceExt P st (snd (snd (snd (snd s))))" and b: "searchStep k e s = Some (Return r)"
    obtain a1 b1 d1 bf1 t1 where s: "s = (a1, b1, d1, bf1, t1)" by (cases s) auto
    obtain bf t2 where r: "r = (bf, t2)" by (cases r) auto
    from searchStep_traceExt[OF P b[unfolded s]] r have "traceExt P t1 t2" by simp
    with a s r show "case r of (b, u) \<Rightarrow> traceExt P st u" by (auto intro: traceExt_trans)
  qed
  then have "traceExt P st t" by simp
  moreover have "traceExt P t st1" using fin P(4) by (simp add: traceExt_def)
  ultimately show ?thesis by (rule traceExt_trans)
qed

lemma traceExt_notin:
  "traceExt (\<lambda>x. x \<noteq> y) s t \<Longrightarrow> \<exists>new. trace t = trace s @ new \<and> y \<notin> set new"
  by (auto simp: traceExt_def list_all_iff)

text \<open>
  C3: in every execution of \<open>startSearch\<close> or \<open>alphaBeta\<close>, no call of
  \<open>savePositionEvaluation\<close> is made while \<open>st->stop\<close> is true; \<open>quiescenceSearch\<close> makes
  no such call at all and leaves the table as it was.
\<close>

theorem no_table_write_while_stopped:
  "(startSearch m k e st = Some st3 \<longrightarrow>
      (\<exists>new. trace st3 = trace st @ new \<and> TTWrite True \<notin> set new))
   \<and> (alphaBeta n e alpha beta depth node sh st = Some (x, st1) \<longrightarrow>
      (\<exists>new. trace st1 = trace st @ new \<and> TTWrite True \<notin> set new))
   \<and> (quiescenceSearch n e alpha beta sh st = Some (y, st2) \<longrightarrow>
      tt st2 = tt st \<and> (\<exists>new. trace st2 = trace st @ new \<and> (\<forall>b. TTWrite b \<notin> set new)))"
proof (intro conjI impI)
  assume "startSearch m k e st = Some st3"
  then have "traceExt (\<lambda>x. x \<noteq> TTWrite True) st st3"
    by (rule startSearch_traceExt[rotated -1]) simp_all
  then show "\<exists>new. trace st3 = trace st @ new \<and> TTWrite True \<notin> set new"
    by (rule traceExt_notin)
next
  assume "alphaBeta n e alpha beta depth node sh st = Some (x, st1)"
  then have "traceExt (\<lambda>x. x \<noteq> TTWrite True) st st1"
    by (rule alphaBeta_inv[OF searchInvariant_traceExt, rotated -1]) simp_all
  then show "\<exists>new. trace st1 = trace st @ new \<and> TTWrite True \<notin> set new"
    by (rule traceExt_notin)
next
  assume q: "quiescenceSearch n e alpha beta sh st = Some (y, st2)"
  have "qsInvariant e (\<lambda>s t. tt t = tt s \<and> traceExt (\<lambda>x. x = NodeCounted) s t)"
    by (rule qsInvariant_noWrite) simp
  from quiescenceSearch_inv[OF this q]
  have a: "tt st2 = tt st" and b: "traceExt (\<lambda>x. x = NodeCounted) st st2" by simp_all
  from a show "tt st2 = tt st" .
  from b show "\<exists>new. trace st2 = trace st @ new \<and> (\<forall>b. TTWrite b \<notin> set new)"
    by (auto simp: traceExt_def list_all_iff)
qed

lemma toy_startSearch_runs:
  "\<not> Option.is_none (startSearch 4 6 toyEnv (toyStart 1 4))"
  by code_simp

theorem no_table_write_while_stopped_witness:
  "\<exists>st3 x st1 y st2.
     startSearch 4 6 toyEnv (toyStart 1 4) = Some st3
     \<and> (\<exists>new. trace st3 = trace (toyStart 1 4) @ new \<and> TTWrite True \<notin> set new)
     \<and> alphaBeta 12 toyEnv (- 32001) 32001 2 ROOT 0 (toyStart 3 1000) = Some (x, st1)
     \<and> (\<exists>new. trace st1 = trace (toyStart 3 1000) @ new \<and> TTWrite True \<notin> set new)
     \<and> quiescenceSearch 12 toyEnv (- 32001) 32001 0 (toyStart 3 1000) = Some (y, st2)
     \<and> tt st2 = tt (toyStart 3 1000)
     \<and> (\<exists>new. trace st2 = trace (toyStart 3 1000) @ new \<and> (\<forall>b. TTWrite b \<notin> set new))"
proof -
  obtain st3 where s: "startSearch 4 6 toyEnv (toyStart 1 4) = Some st3"
    using toy_startSearch_runs by (auto simp: Option.is_none_def)
  obtain x st1 where a: "alphaBeta 12 toyEnv (- 32001) 32001 2 ROOT 0 (toyStart 3 1000) = Some (x, st1)"
    using toy_alphaBeta_runs by (auto simp: Option.is_none_def)
  obtain y st2 where q: "quiescenceSearch 12 toyEnv (- 32001) 32001 0 (toyStart 3 1000) = Some (y, st2)"
    using toy_quiescence_runs by (auto simp: Option.is_none_def)
  from s a q
    no_table_write_while_stopped[THEN conjunct1, rule_format, OF s]
    no_table_write_while_stopped[THEN conjunct2, THEN conjunct1, rule_format, OF a]
    no_table_write_while_stopped[THEN conjunct2, THEN conjunct2, rule_format, OF q]
  show ?thesis by blast
qed

subsection \<open>Aspiration windows\<close>

lemma searchStep_accept:
  assumes "depth \<noteq> 0" and "\<not> fst (outOfTime e st)"
    and "alphaBeta k e alpha beta depth ROOT 0 (snd (outOfTime e st)) = Some (s, st2)"
    and "alpha < s" "s < beta" "\<not> stop st2"
  shows "searchStep k e (alpha, beta, depth, buffers, st) =
     Some (Continue (s - 25, s + 25, depth + 1, Some (pvToString e (helpers st2 0)),
        if print st2
        then printSearch e depth s (fst (pvToString e (helpers st2 0)))
               (st2\<lparr>bestMove := \<lparr>mo_move = helpers st2 0 0, mo_score = s\<rparr>\<rparr>)
        else st2\<lparr>bestMove := \<lparr>mo_move = helpers st2 0 0, mo_score = s\<rparr>\<rparr>))"
proof -
  obtain timeout st1 where oot: "outOfTime e st = (timeout, st1)" by (cases "outOfTime e st") auto
  with assms(2,3) have "\<not> timeout" "alphaBeta k e alpha beta depth ROOT 0 st1 = Some (s, st2)"
    by simp_all
  with oot assms(1,4,5,6) show ?thesis
    unfolding searchStep_def by (simp add: Let_def ASPIRATION_WINDOW_def)
qed

lemma pvTail_eq:
  "pvTail e n d pv =
     concat (map (\<lambda>m. CHR '' '' # moveToString e m)
               (takeWhile (\<lambda>m. m \<noteq> NO_MOVE) (map pv [d..<min (d + n) MAX_DEPTH])))"
proof (induction n arbitrary: d)
  case 0
  then show ?case by simp
next
  case (Suc n)
  show ?case
  proof (cases "d < MAX_DEPTH")
    case True
    then have u: "[d..<min (Suc (d + n)) MAX_DEPTH] = d # [Suc d..<min (Suc (d + n)) MAX_DEPTH]"
      by (simp add: upt_conv_Cons)
    show ?thesis using True by (simp add: u Suc.IH[of "Suc d"])
  next
    case False
    then show ?thesis by simp
  qed
qed

lemma pvToString_eq:
  "pvToString e pv =
     (moveToString e (pv 0)
        @ concat (map (\<lambda>m. CHR '' '' # moveToString e m)
                    (takeWhile (\<lambda>m. m \<noteq> NO_MOVE) (map pv [1..<255]))),
      moveToString e (pv 0),
      if pv 1 \<noteq> NO_MOVE then moveToString e (pv 1) else [])"
  using pvTail_eq[of e MAX_DEPTH 1 pv] by (simp add: pvToString_def MAX_DEPTH_def)

lemma searchStep_iteration:
  assumes d: "depth \<noteq> 0" and oot: "outOfTime e st = (False, st1)"
    and ab: "alphaBeta k e alpha beta depth ROOT 0 st1 = Some (s, st2)"
  shows "searchStep k e (alpha, beta, depth, buffers, st) =
           Some (Continue (specifiedIteration e alpha beta depth buffers s st2))"
proof (cases "alpha < s \<and> s < beta \<and> \<not> stop st2")
  case True
  have "searchStep k e (alpha, beta, depth, buffers, st) =
     Some (Continue (s - 25, s + 25, depth + 1, Some (pvToString e (helpers st2 0)),
        if print st2
        then printSearch e depth s (fst (pvToString e (helpers st2 0)))
               (st2\<lparr>bestMove := \<lparr>mo_move = helpers st2 0 0, mo_score = s\<rparr>\<rparr>)
        else st2\<lparr>bestMove := \<lparr>mo_move = helpers st2 0 0, mo_score = s\<rparr>\<rparr>))"
    using searchStep_accept[of depth e st k alpha beta s st2 buffers] d oot ab True by simp
  also have "\<dots> = Some (Continue (specifiedIteration e alpha beta depth buffers s st2))"
    using True
    by (simp add: specifiedIteration_def pvToString_eq printSearch_def getTimeNs_def
          scoreType_def printedScore_def Let_def)
  finally show ?thesis .
next
  case False
  then have f: "(s > alpha \<and> s < beta \<and> \<not> stop st2) = False" by simp
  from False have f': "(alpha < s \<and> s < beta \<and> \<not> stop st2) = False" by simp
  have w: "(depth - 1) + 1 = depth" by simp
  have a: "(if s > alpha then alpha else - INFINITE e) = (if s \<le> alpha then - INFINITE e else alpha)"
    by auto
  have b: "(if s < beta then beta else INFINITE e) = (if beta \<le> s then INFINITE e else beta)"
    by auto
  have "searchStep k e (alpha, beta, depth, buffers, st) =
          Some (Continue (if s > alpha then alpha else - INFINITE e,
                          if s < beta then beta else INFINITE e, (depth - 1) + 1, buffers, st2))"
    unfolding searchStep_def using d oot ab
    by (simp only: prod.case if_False option.case f)
  also have "\<dots> = Some (Continue (specifiedIteration e alpha beta depth buffers s st2))"
    unfolding a b w by (simp only: specifiedIteration_def f' if_False)
  finally show ?thesis .
qed


lemma loop_round:
  assumes d: "depth \<noteq> 0" and oot: "outOfTime e t = (False, t1)"
  shows "loopFuel (Suc n) (searchStep k e) (alpha, beta, depth, buffers, t) =
          (case alphaBeta k e alpha beta depth ROOT 0 t1 of
             None \<Rightarrow> None
           | Some (s, t2) \<Rightarrow>
               loopFuel n (searchStep k e) (specifiedIteration e alpha beta depth buffers s t2))"
proof (cases "alphaBeta k e alpha beta depth ROOT 0 t1")
  case None
  then have "searchStep k e (alpha, beta, depth, buffers, t) = None"
    using d oot by (simp add: searchStep_def)
  with None show ?thesis by simp
next
  case (Some p)
  obtain s t2 where p: "p = (s, t2)" by (cases p) auto
  from searchStep_iteration[OF d oot Some[unfolded p], of buffers] Some p
  show ?thesis by simp
qed

lemma loop_timeout:
  assumes d: "depth \<noteq> 0" and oot: "outOfTime e t = (True, t1)"
  shows "loopFuel (Suc n) (searchStep k e) (alpha, beta, depth, buffers, t) = Some (buffers, t1)"
  using d oot by (simp add: searchStep_def)

lemma specifiedIteration_rejected:
  assumes "\<not> (alpha < s \<and> s < beta \<and> \<not> stop t2)"
  shows "specifiedIteration e alpha beta depth buffers s t2 =
           (if s \<le> alpha then - INFINITE e else alpha,
            if beta \<le> s then INFINITE e else beta, depth, buffers, t2)"
proof -
  from assms have f: "(alpha < s \<and> s < beta \<and> \<not> stop t2) = False" by simp
  show ?thesis by (simp only: specifiedIteration_def f if_False)
qed

text \<open>
  C1, as the code has it. \<open>startSearch\<close> enters its loop at depth 1 with the window
  \<open>[-INFINITE, +INFINITE]\<close>. A round of the loop that is not out of time at its check
  searches the depth with the window it has, and with the score \<open>s\<close> goes on as
  \<open>specifiedIteration\<close> says: if \<open>alpha < s < beta\<close> and the stop flag is not set, the root
  move and score are committed, the three buffers are written from the root line, the
  info line is printed when \<open>print\<close> is set, and the next round has depth + 1 and the
  window \<open>[s - 25, s + 25]\<close>; otherwise nothing is committed, written or printed and the
  next round has the same depth, \<open>alpha\<close> reset to \<open>-INFINITE\<close> if \<open>s \<le> alpha\<close>, \<open>beta\<close> reset
  to \<open>+INFINITE\<close> if \<open>s \<ge> beta\<close>, the other bound kept. That next round searches the same
  depth again with the new window if it is not out of time at its check; if it is, the
  loop ends there and the depth is not searched again.
\<close>

theorem aspiration_window_iteration:
  "startSearch n k e st =
     map_option (\<lambda>r. if print (snd r)
                     then (snd r)\<lparr>trace := trace (snd r) @ [Printed (printBestmove (fst r))]\<rparr>
                     else snd r)
       (loopFuel n (searchStep k e)
          (- INFINITE e, INFINITE e, 1, None,
           st\<lparr>clock := Suc (clock st), startNs := clockReading e (clock st)\<rparr>))
   \<and> (depth \<noteq> 0 \<longrightarrow> outOfTime e t = (False, t1) \<longrightarrow>
        loopFuel (Suc n) (searchStep k e) (alpha, beta, depth, buffers, t) =
          (case alphaBeta k e alpha beta depth ROOT 0 t1 of
             None \<Rightarrow> None
           | Some (s, t2) \<Rightarrow>
               loopFuel n (searchStep k e) (specifiedIteration e alpha beta depth buffers s t2)))
   \<and> (depth \<noteq> 0 \<longrightarrow> outOfTime e t = (True, t1) \<longrightarrow>
        loopFuel (Suc n) (searchStep k e) (alpha, beta, depth, buffers, t) = Some (buffers, t1))
   \<and> (depth \<noteq> 0 \<longrightarrow> outOfTime e t = (False, t1) \<longrightarrow>
        alphaBeta k e alpha beta depth ROOT 0 t1 = Some (s, t2) \<longrightarrow>
        \<not> (alpha < s \<and> s < beta \<and> \<not> stop t2) \<longrightarrow>
          (outOfTime e t2 = (False, t3) \<longrightarrow>
             loopFuel (Suc (Suc n)) (searchStep k e) (alpha, beta, depth, buffers, t) =
               (case alphaBeta k e (if s \<le> alpha then - INFINITE e else alpha)
                       (if beta \<le> s then INFINITE e else beta) depth ROOT 0 t3 of
                  None \<Rightarrow> None
                | Some (s', t4) \<Rightarrow>
                    loopFuel n (searchStep k e)
                      (specifiedIteration e (if s \<le> alpha then - INFINITE e else alpha)
                         (if beta \<le> s then INFINITE e else beta) depth buffers s' t4)))
          \<and> (outOfTime e t2 = (True, t3) \<longrightarrow>
             loopFuel (Suc (Suc n)) (searchStep k e) (alpha, beta, depth, buffers, t) =
               Some (buffers, t3)))"
proof (intro conjI impI)
  show "startSearch n k e st =
     map_option (\<lambda>r. if print (snd r)
                     then (snd r)\<lparr>trace := trace (snd r) @ [Printed (printBestmove (fst r))]\<rparr>
                     else snd r)
       (loopFuel n (searchStep k e)
          (- INFINITE e, INFINITE e, 1, None,
           st\<lparr>clock := Suc (clock st), startNs := clockReading e (clock st)\<rparr>))"
    by (simp add: startSearch_def getTimeNs_def split: prod.splits option.splits)
next
  assume "depth \<noteq> 0" "outOfTime e t = (False, t1)"
  then show "loopFuel (Suc n) (searchStep k e) (alpha, beta, depth, buffers, t) =
          (case alphaBeta k e alpha beta depth ROOT 0 t1 of
             None \<Rightarrow> None
           | Some (s, t2) \<Rightarrow>
               loopFuel n (searchStep k e) (specifiedIteration e alpha beta depth buffers s t2))"
    by (rule loop_round)
next
  assume "depth \<noteq> 0" "outOfTime e t = (True, t1)"
  then show "loopFuel (Suc n) (searchStep k e) (alpha, beta, depth, buffers, t) = Some (buffers, t1)"
    by (rule loop_timeout)
next
  assume d: "depth \<noteq> 0" and oot: "outOfTime e t = (False, t1)"
    and ab: "alphaBeta k e alpha beta depth ROOT 0 t1 = Some (s, t2)"
    and rej: "\<not> (alpha < s \<and> s < beta \<and> \<not> stop t2)"
    and oot2: "outOfTime e t2 = (False, t3)"
  have "loopFuel (Suc (Suc n)) (searchStep k e) (alpha, beta, depth, buffers, t) =
        loopFuel (Suc n) (searchStep k e)
          (if s \<le> alpha then - INFINITE e else alpha,
           if beta \<le> s then INFINITE e else beta, depth, buffers, t2)"
    using loop_round[OF d oot, of "Suc n" k alpha beta buffers]
    by (simp only: ab option.case prod.case specifiedIteration_rejected[OF rej])
  also note loop_round[OF d oot2]
  finally show "loopFuel (Suc (Suc n)) (searchStep k e) (alpha, beta, depth, buffers, t) =
               (case alphaBeta k e (if s \<le> alpha then - INFINITE e else alpha)
                       (if beta \<le> s then INFINITE e else beta) depth ROOT 0 t3 of
                  None \<Rightarrow> None
                | Some (s', t4) \<Rightarrow>
                    loopFuel n (searchStep k e)
                      (specifiedIteration e (if s \<le> alpha then - INFINITE e else alpha)
                         (if beta \<le> s then INFINITE e else beta) depth buffers s' t4))" .
next
  assume d: "depth \<noteq> 0" and oot: "outOfTime e t = (False, t1)"
    and ab: "alphaBeta k e alpha beta depth ROOT 0 t1 = Some (s, t2)"
    and rej: "\<not> (alpha < s \<and> s < beta \<and> \<not> stop t2)"
    and oot2: "outOfTime e t2 = (True, t3)"
  have "loopFuel (Suc (Suc n)) (searchStep k e) (alpha, beta, depth, buffers, t) =
        loopFuel (Suc n) (searchStep k e)
          (if s \<le> alpha then - INFINITE e else alpha,
           if beta \<le> s then INFINITE e else beta, depth, buffers, t2)"
    using loop_round[OF d oot, of "Suc n" k alpha beta buffers]
    by (simp only: ab option.case prod.case specifiedIteration_rejected[OF rej])
  also note loop_timeout[OF d oot2]
  finally show "loopFuel (Suc (Suc n)) (searchStep k e) (alpha, beta, depth, buffers, t) =
               Some (buffers, t3)" .
qed

lemma toy_accept_run:
  "map_option (\<lambda>r. (fst r, stop (snd r)))
     (alphaBeta 6 toyEnv (- 32001) 32001 1 ROOT 0 (snd (outOfTime toyEnv (toyLoopEntry 1 1000))))
   = Some (- 3, False)"
  by code_simp

lemma toy_fail_low_run:
  "map_option (\<lambda>r. (fst r, fst (outOfTime toyEnv (snd r))))
     (alphaBeta 6 toyEnv 10 20 1 ROOT 0 (snd (outOfTime toyEnv (toyLoopEntry 1 1000))))
   = Some (- 3, False)"
  by code_simp

lemma toy_stopped_run:
  "map_option (\<lambda>r. (fst r, stop (snd r), fst (outOfTime toyEnv (snd r))))
     (alphaBeta 6 toyEnv (- 32001) 32001 1 ROOT 0 (snd (outOfTime toyEnv (toyLoopEntry 1 2))))
   = Some (0, True, True)"
  by code_simp

theorem aspiration_window_iteration_witness:
  "\<exists>s t2 s' u2 s'' v2.
     (1 :: Depth) \<noteq> 0
     \<and> outOfTime toyEnv (toyLoopEntry 1 1000)
         = (False, snd (outOfTime toyEnv (toyLoopEntry 1 1000)))
     \<and> alphaBeta 6 toyEnv (- 32001) 32001 1 ROOT 0 (snd (outOfTime toyEnv (toyLoopEntry 1 1000)))
         = Some (s, t2)
     \<and> loopFuel (Suc 3) (searchStep 6 toyEnv) (- 32001, 32001, 1, None, toyLoopEntry 1 1000)
         = loopFuel 3 (searchStep 6 toyEnv) (specifiedIteration toyEnv (- 32001) 32001 1 None s t2)
     \<and> outOfTime toyEnv (toyLoopEntry 1 0) = (True, snd (outOfTime toyEnv (toyLoopEntry 1 0)))
     \<and> loopFuel (Suc 3) (searchStep 6 toyEnv) (- 32001, 32001, 1, None, toyLoopEntry 1 0)
         = Some (None, snd (outOfTime toyEnv (toyLoopEntry 1 0)))
     \<and> alphaBeta 6 toyEnv 10 20 1 ROOT 0 (snd (outOfTime toyEnv (toyLoopEntry 1 1000)))
         = Some (s', u2)
     \<and> \<not> (10 < s' \<and> s' < 20 \<and> \<not> stop u2)
     \<and> outOfTime toyEnv u2 = (False, snd (outOfTime toyEnv u2))
     \<and> loopFuel (Suc (Suc 2)) (searchStep 6 toyEnv) (10, 20, 1, None, toyLoopEntry 1 1000)
         = (case alphaBeta 6 toyEnv (- 32001) 20 1 ROOT 0 (snd (outOfTime toyEnv u2)) of
              None \<Rightarrow> None
            | Some (r, u4) \<Rightarrow>
                loopFuel 2 (searchStep 6 toyEnv) (specifiedIteration toyEnv (- 32001) 20 1 None r u4))
     \<and> outOfTime toyEnv (toyLoopEntry 1 2) = (False, snd (outOfTime toyEnv (toyLoopEntry 1 2)))
     \<and> alphaBeta 6 toyEnv (- 32001) 32001 1 ROOT 0 (snd (outOfTime toyEnv (toyLoopEntry 1 2)))
         = Some (s'', v2)
     \<and> \<not> (- 32001 < s'' \<and> s'' < 32001 \<and> \<not> stop v2)
     \<and> outOfTime toyEnv v2 = (True, snd (outOfTime toyEnv v2))
     \<and> loopFuel (Suc (Suc 2)) (searchStep 6 toyEnv) (- 32001, 32001, 1, None, toyLoopEntry 1 2)
         = Some (None, snd (outOfTime toyEnv v2))"
proof -
  have d: "(1 :: Depth) \<noteq> 0" by simp
  have q1: "\<not> fst (outOfTime toyEnv (toyLoopEntry 1 1000))" by code_simp
  have q0: "fst (outOfTime toyEnv (toyLoopEntry 1 0))" by code_simp
  have q2: "\<not> fst (outOfTime toyEnv (toyLoopEntry 1 2))" by code_simp
  have o1: "outOfTime toyEnv (toyLoopEntry 1 1000)
         = (False, snd (outOfTime toyEnv (toyLoopEntry 1 1000)))"
    using q1 by (cases "outOfTime toyEnv (toyLoopEntry 1 1000)") simp
  have o0: "outOfTime toyEnv (toyLoopEntry 1 0) = (True, snd (outOfTime toyEnv (toyLoopEntry 1 0)))"
    using q0 by (cases "outOfTime toyEnv (toyLoopEntry 1 0)") simp
  have o2: "outOfTime toyEnv (toyLoopEntry 1 2) = (False, snd (outOfTime toyEnv (toyLoopEntry 1 2)))"
    using q2 by (cases "outOfTime toyEnv (toyLoopEntry 1 2)") simp
  have inf: "INFINITE toyEnv = 32001" by (simp add: toyEnv_def)
  from toy_accept_run obtain t2 where
    a1: "alphaBeta 6 toyEnv (- 32001) 32001 1 ROOT 0 (snd (outOfTime toyEnv (toyLoopEntry 1 1000)))
         = Some (- 3, t2)"
    by auto
  from toy_fail_low_run obtain u2 where
    a2: "alphaBeta 6 toyEnv 10 20 1 ROOT 0 (snd (outOfTime toyEnv (toyLoopEntry 1 1000)))
         = Some (- 3, u2)"
    and p2: "\<not> fst (outOfTime toyEnv u2)"
    by auto
  from toy_stopped_run obtain v2 where
    a3: "alphaBeta 6 toyEnv (- 32001) 32001 1 ROOT 0 (snd (outOfTime toyEnv (toyLoopEntry 1 2)))
         = Some (0, v2)"
    and s3: "stop v2" and p3: "fst (outOfTime toyEnv v2)"
    by auto
  have ou: "outOfTime toyEnv u2 = (False, snd (outOfTime toyEnv u2))"
    using p2 by (cases "outOfTime toyEnv u2") simp
  have ov: "outOfTime toyEnv v2 = (True, snd (outOfTime toyEnv v2))"
    using p3 by (cases "outOfTime toyEnv v2") simp
  have r2: "\<not> (10 < (- 3 :: int) \<and> (- 3 :: int) < 20 \<and> \<not> stop u2)" by simp
  have r3: "\<not> (- 32001 < (0 :: int) \<and> (0 :: int) < 32001 \<and> \<not> stop v2)" using s3 by simp
  from aspiration_window_iteration[THEN conjunct2, THEN conjunct1, rule_format, OF d o1,
      of 3 6 "- 32001" 32001 None]
  have c1: "loopFuel (Suc 3) (searchStep 6 toyEnv) (- 32001, 32001, 1, None, toyLoopEntry 1 1000)
         = loopFuel 3 (searchStep 6 toyEnv) (specifiedIteration toyEnv (- 32001) 32001 1 None (- 3) t2)"
    by (simp only: a1 option.case prod.case)
  from aspiration_window_iteration[THEN conjunct2, THEN conjunct2, THEN conjunct1, rule_format,
      OF d o0, of 3 6 "- 32001" 32001 None]
  have c2: "loopFuel (Suc 3) (searchStep 6 toyEnv) (- 32001, 32001, 1, None, toyLoopEntry 1 0)
         = Some (None, snd (outOfTime toyEnv (toyLoopEntry 1 0)))" .
  from aspiration_window_iteration[THEN conjunct2, THEN conjunct2, THEN conjunct2, rule_format,
      OF d o1 a2 r2, THEN conjunct1, rule_format, OF ou, of 2 None]
  have c3: "loopFuel (Suc (Suc 2)) (searchStep 6 toyEnv) (10, 20, 1, None, toyLoopEntry 1 1000)
         = (case alphaBeta 6 toyEnv (- 32001) 20 1 ROOT 0 (snd (outOfTime toyEnv u2)) of
              None \<Rightarrow> None
            | Some (r, u4) \<Rightarrow>
                loopFuel 2 (searchStep 6 toyEnv) (specifiedIteration toyEnv (- 32001) 20 1 None r u4))"
    unfolding inf by simp
  from aspiration_window_iteration[THEN conjunct2, THEN conjunct2, THEN conjunct2, rule_format,
      OF d o2 a3 r3, THEN conjunct2, rule_format, OF ov, of 2 None]
  have c4: "loopFuel (Suc (Suc 2)) (searchStep 6 toyEnv) (- 32001, 32001, 1, None, toyLoopEntry 1 2)
         = Some (None, snd (outOfTime toyEnv v2))" .
  from d o1 a1 c1 o0 c2 a2 r2 ou c3 o2 a3 r3 ov c4 show ?thesis by blast
qed

text \<open>
  C1 as stated fails in its last part: a rejected iteration is not always followed by a
  search of the same depth. In the first run the search of depth 2 with the window
  \<open>[-125, -75]\<close> comes back with 0, above \<open>beta\<close>, and the next check of the loop finds the
  time used up: the loop ends, depth 2 is not searched again. With more time (second
  run) it is searched again and accepted. In the third run the search of depth 1 is
  rejected because the stop flag was set at its root, and the loop ends at its next
  check.
\<close>

theorem aspiration_window_iteration_counterexample:
  "map_option trace (startSearch 5 12 toyWide (toyStart 1 7)) =
     Some [Polled False, NodeCounted, Polled False, NodeCounted, TTWrite False,
           Printed (Info 1 ''cp'' (- 100) 2 2000 0 ''a''),
           Polled False, NodeCounted, Polled False, NodeCounted, Polled False,
           TTWrite False, TTWrite False,
           Polled True, Printed (Bestmove ''a'')]
   \<and> map_option trace (startSearch 5 12 toyWide (toyStart 1 11)) =
     Some [Polled False, NodeCounted, Polled False, NodeCounted, TTWrite False,
           Printed (Info 1 ''cp'' (- 100) 2 2000 0 ''a''),
           Polled False, NodeCounted, Polled False, NodeCounted, Polled False,
           TTWrite False, TTWrite False,
           Polled False, NodeCounted, Polled False, NodeCounted, Polled False,
           TTWrite False, TTWrite False,
           Printed (Info 2 ''cp'' 0 6 6000 0 ''a''),
           Polled True, Printed (Bestmove ''a'')]
   \<and> map_option trace (startSearch 4 6 toyEnv (toyStart 1 2)) =
     Some [Polled False, NodeCounted, Polled True, Polled True,
           Printed BestmoveUninitialised]"
  by code_simp

subsection \<open>The table probe\<close>

lemma ttCutoff_iff:
  "ttCutoff e isPvNode hasEvaluation pe depth alpha beta p = Some s \<longleftrightarrow>
     hasEvaluation \<and> \<not> isPvNode \<and> pe_depth pe \<ge> depth
     \<and> s = adjustNodeScoreFromTT e (pe_nodeScore pe) p
     \<and> (pe_bound pe = EXACT \<or> pe_bound pe = LOWER \<and> s \<ge> beta \<or> pe_bound pe = UPPER \<and> s \<le> alpha)"
  by (cases "pe_bound pe") (auto simp: ttCutoff_def Let_def)

lemma alphaBeta_probe:
  assumes d: "depth \<noteq> 0" and nd: "\<not> (node \<noteq> ROOT \<and> isDraw e (board st))"
    and oot: "outOfTime e (countNode (resetPV sh st)) = (False, st2)"
    and pr: "probeTranspositionTable e (tt st2) (getPositionKey e (board st2)) = (pe, hit)"
  shows "alphaBeta (Suc n) e alpha beta depth node sh st =
     (case ttCutoff e (node \<noteq> NON_PV) hit pe depth alpha beta (ply st2) of
        Some nodeScore \<Rightarrow> Some (nodeScore, st2)
      | None \<Rightarrow> searchNode (alphaBeta n e) n e alpha beta depth node sh pe hit
                  (getPositionKey e (board st2)) (if hit then pe_bestMove pe else NO_MOVE) st2)"
proof -
  have b: "board (countNode (resetPV sh st)) = board st"
    by (simp add: countNode_def resetPV_def)
  have nd': "(node \<noteq> ROOT \<and> isDraw e (board (countNode (resetPV sh st)))) = False"
    using nd b by simp
  show ?thesis using d oot pr by (simp add: Let_def nd')
qed

lemma ttCutoff_hit:
  "ttCutoff e (node \<noteq> NON_PV) True pe depth alpha beta p =
     (if node = NON_PV \<and> pe_depth pe \<ge> depth
         \<and> (pe_bound pe = EXACT
            \<or> pe_bound pe = LOWER \<and> adjustNodeScoreFromTT e (pe_nodeScore pe) p \<ge> beta
            \<or> pe_bound pe = UPPER \<and> adjustNodeScoreFromTT e (pe_nodeScore pe) p \<le> alpha)
      then Some (adjustNodeScoreFromTT e (pe_nodeScore pe) p) else None)"
  by (cases "pe_bound pe") (auto simp: ttCutoff_def Let_def)

lemma pvSearch_unfold:
  "pvSearch ab a beta depth node (Suc l) child t =
     (if node = NON_PV \<or> 0 < l
      then (case ab (- a - 1) (- a) (depth - (if 0 < l \<and> 1 < depth then 2 else 1)) NON_PV child t of
              None \<Rightarrow> None
            | Some (r, u) \<Rightarrow>
                if node \<noteq> NON_PV \<and> (l = 0 \<or> a < - r)
                then (case ab (- beta) (- a) (depth - 1) PV child u of
                        None \<Rightarrow> None
                      | Some (r2, u2) \<Rightarrow> Some (- r2, u2))
                else Some (- r, u))
      else (case ab (- beta) (- a) (depth - 1) PV child t of
              None \<Rightarrow> None
            | Some (r2, u2) \<Rightarrow> Some (- r2, u2)))"
  by (auto simp: pvSearch_def Let_def split: option.splits)

lemma abStep_unfold:
  "abStep ab e beta depth node sh pe key checkers staticEval cur (a, l, bs, bm, ms, t) =
     (case getNextBestMove e (board t) ms of (m, ms1) \<Rightarrow>
        if m = NO_MOVE then Some (Return (LoopDone l bs bm, t))
        else if \<not> isLegalMove e (board t) m then Some (Continue (a, l, bs, bm, ms1, t))
        else if (node = NON_PV \<or> 0 < l) \<and> depth < 4 \<and> \<not> checkers
                \<and> \<not> isInteresting e (board t) m \<and> staticEval + 150 * uint depth \<le> a
        then Some (Continue (a, Suc l, bs, bm, ms1, t))
        else
          (case pvSearch ab a beta depth node (Suc l) (Suc sh) (descend e cur m t) of
             None \<Rightarrow> None
           | Some (score, u) \<Rightarrow>
               if bs < score \<and> a < score \<and> beta \<le> score
               then Some (Return (BetaCutoff score,
                      if stop (ascend e m u) then ascend e m u
                      else saveTT e pe key m depth LOWER
                             (adjustNodeScoreToTT e score (ply (ascend e m u))) staticEval
                             (ascend e m u)))
               else Some (Continue
                      (if bs < score \<and> a < score then score else a, Suc l,
                       if bs < score then score else bs, if bs < score then m else bm, ms1,
                       if bs < score \<and> a < score then storePV m sh (Suc sh) (ascend e m u)
                       else ascend e m u))))"
proof -
  obtain m ms1 where g: "getNextBestMove e (board t) ms = (m, ms1)"
    by (cases "getNextBestMove e (board t) ms") auto
  show ?thesis
  proof (cases "pvSearch ab a beta depth node (Suc l) (Suc sh) (descend e cur m t)")
    case None
    with g show ?thesis
      by (auto simp: abStep_def Let_def getReverseFutilityPruningScore_def)
  next
    case (Some p)
    obtain score u where p: "p = (score, u)" by (cases p) auto
    from g Some p show ?thesis
      by (auto simp: abStep_def Let_def getReverseFutilityPruningScore_def)
  qed
qed

lemma searchMoves_unfold:
  "searchMoves ab n e alpha beta depth node sh pe key ttMove checkers staticEval t =
     (if node = NON_PV \<and> \<not> checkers \<and> staticEval - 150 * uint depth \<ge> beta
      then Some (staticEval, t)
      else
        (case loopFuel n (abStep ab e beta depth node sh pe key checkers staticEval (unat (ply t)))
                (alpha, 0, - INFINITE e, NO_MOVE, createMoveSelector e (board t) TT_MOVE ttMove, t) of
           None \<Rightarrow> None
         | Some (BetaCutoff score, u) \<Rightarrow> Some (score, u)
         | Some (LoopDone l bs bm, u) \<Rightarrow>
             Some (finishNode e checkers depth alpha staticEval pe key l bs bm u)))"
  by (simp add: searchMoves_def getRFPMargin_def)

lemma searchNode_hit_unfold:
  "searchNode ab n e alpha beta depth node sh pe True key ttMove st2 =
     (let checkers = getCheckers e (board st2);
          staticEval = (if checkers then - INFINITE e else pe_staticEvaluation pe)
      in
      if node = NON_PV \<and> \<not> checkers \<and> depth > 3 \<and> staticEval \<ge> beta
         \<and> hasNonPawnMaterial e (board st2) (sideToMove e (board st2))
      then
        (case ab (- beta) (- beta + 1) (depth - 4) NON_PV (Suc sh)
                (descendNull e (unat (ply st2)) st2) of
           None \<Rightarrow> None
         | Some (r, t) \<Rightarrow>
             if - r \<ge> beta then Some (- r, ascendNull e t)
             else searchMoves ab n e alpha beta depth node sh pe key ttMove checkers staticEval
                    (ascendNull e t))
      else searchMoves ab n e alpha beta depth node sh pe key ttMove checkers staticEval st2)"
  by (auto simp: searchNode_def Let_def split: option.splits)

text \<open>
  C2, as the code has it. At a node that gets as far as the table probe (depth above 0,
  no draw return, not out of time) and finds an entry, \<open>alphaBeta\<close> returns the
  ply-adjusted stored score at once exactly when the node is NonPV, the entry's depth is
  at least the remaining depth, and the bound is Exact, or Lower with that score
  \<open>\<ge> beta\<close>, or Upper with it \<open>\<le> alpha\<close>. In every other case of a hit the static
  evaluation is the one stored in the entry (\<open>-INFINITE\<close> in check), and the node can
  still return before a move is generated: from null-move pruning, with the negated
  score of the null-move search, and from reverse futility pruning, with the stored
  static evaluation. Only past both, the move selector is created with the entry's best
  move as its table move, and the move loop runs on what that selector hands out.

  The second part is one round of that loop, for any loop state: \<open>NO_MOVE\<close> from the
  selector ends the loop, a move that is not legal is skipped, a legal move is either
  pruned or made on the board and searched by the recursive calls, and the selector
  moves on by one answer.
\<close>

theorem table_hit_cutoff:
  "(depth \<noteq> 0 \<longrightarrow> \<not> (node \<noteq> ROOT \<and> isDraw e (board st)) \<longrightarrow>
    outOfTime e (countNode (resetPV sh st)) = (False, st2) \<longrightarrow>
    probeTranspositionTable e (tt st2) (getPositionKey e (board st2)) = (pe, True) \<longrightarrow>
    alphaBeta (Suc n) e alpha beta depth node sh st =
      (let s = adjustNodeScoreFromTT e (pe_nodeScore pe) (ply st2);
           checkers = getCheckers e (board st2);
           staticEval = (if checkers then - INFINITE e else pe_staticEvaluation pe);
           moves = (\<lambda>t.
             if node = NON_PV \<and> \<not> checkers \<and> staticEval - 150 * uint depth \<ge> beta
             then Some (staticEval, t)
             else
               (case loopFuel n
                       (abStep (alphaBeta n e) e beta depth node sh pe
                          (getPositionKey e (board st2)) checkers staticEval (unat (ply t)))
                       (alpha, 0, - INFINITE e, NO_MOVE,
                        createMoveSelector e (board t) TT_MOVE (pe_bestMove pe), t) of
                  None \<Rightarrow> None
                | Some (BetaCutoff score, u) \<Rightarrow> Some (score, u)
                | Some (LoopDone l bs bm, u) \<Rightarrow>
                    Some (finishNode e checkers depth alpha staticEval pe
                            (getPositionKey e (board st2)) l bs bm u)))
       in
       if node = NON_PV \<and> pe_depth pe \<ge> depth
          \<and> (pe_bound pe = EXACT \<or> pe_bound pe = LOWER \<and> s \<ge> beta
             \<or> pe_bound pe = UPPER \<and> s \<le> alpha)
       then Some (s, st2)
       else if node = NON_PV \<and> \<not> checkers \<and> depth > 3 \<and> staticEval \<ge> beta
               \<and> hasNonPawnMaterial e (board st2) (sideToMove e (board st2))
       then
         (case alphaBeta n e (- beta) (- beta + 1) (depth - 4) NON_PV (Suc sh)
                 (descendNull e (unat (ply st2)) st2) of
            None \<Rightarrow> None
          | Some (r, t) \<Rightarrow>
              if - r \<ge> beta then Some (- r, ascendNull e t) else moves (ascendNull e t))
       else moves st2))
   \<and> abStep (alphaBeta n e) e beta depth node sh pe key checkers staticEval cur
        (a, l, bs, bm, ms, t) =
      (case getNextBestMove e (board t) ms of (m, ms1) \<Rightarrow>
        if m = NO_MOVE then Some (Return (LoopDone l bs bm, t))
        else if \<not> isLegalMove e (board t) m then Some (Continue (a, l, bs, bm, ms1, t))
        else if (node = NON_PV \<or> 0 < l) \<and> depth < 4 \<and> \<not> checkers
                \<and> \<not> isInteresting e (board t) m \<and> staticEval + 150 * uint depth \<le> a
        then Some (Continue (a, Suc l, bs, bm, ms1, t))
        else
          (case
             (if node = NON_PV \<or> 0 < l
              then (case alphaBeta n e (- a - 1) (- a)
                           (depth - (if 0 < l \<and> 1 < depth then 2 else 1)) NON_PV (Suc sh)
                           (descend e cur m t) of
                      None \<Rightarrow> None
                    | Some (r, u) \<Rightarrow>
                        if node \<noteq> NON_PV \<and> (l = 0 \<or> a < - r)
                        then (case alphaBeta n e (- beta) (- a) (depth - 1) PV (Suc sh) u of
                                None \<Rightarrow> None
                              | Some (r2, u2) \<Rightarrow> Some (- r2, u2))
                        else Some (- r, u))
              else (case alphaBeta n e (- beta) (- a) (depth - 1) PV (Suc sh)
                           (descend e cur m t) of
                      None \<Rightarrow> None
                    | Some (r2, u2) \<Rightarrow> Some (- r2, u2))) of
             None \<Rightarrow> None
           | Some (score, u) \<Rightarrow>
               if bs < score \<and> a < score \<and> beta \<le> score
               then Some (Return (BetaCutoff score,
                      if stop (ascend e m u) then ascend e m u
                      else saveTT e pe key m depth LOWER
                             (adjustNodeScoreToTT e score (ply (ascend e m u))) staticEval
                             (ascend e m u)))
               else Some (Continue
                      (if bs < score \<and> a < score then score else a, Suc l,
                       if bs < score then score else bs, if bs < score then m else bm, ms1,
                       if bs < score \<and> a < score then storePV m sh (Suc sh) (ascend e m u)
                       else ascend e m u))))"
proof (intro conjI impI)
  assume d: "depth \<noteq> 0" and nd: "\<not> (node \<noteq> ROOT \<and> isDraw e (board st))"
    and oot: "outOfTime e (countNode (resetPV sh st)) = (False, st2)"
    and pr: "probeTranspositionTable e (tt st2) (getPositionKey e (board st2)) = (pe, True)"
  show "alphaBeta (Suc n) e alpha beta depth node sh st =
      (let s = adjustNodeScoreFromTT e (pe_nodeScore pe) (ply st2);
           checkers = getCheckers e (board st2);
           staticEval = (if checkers then - INFINITE e else pe_staticEvaluation pe);
           moves = (\<lambda>t.
             if node = NON_PV \<and> \<not> checkers \<and> staticEval - 150 * uint depth \<ge> beta
             then Some (staticEval, t)
             else
               (case loopFuel n
                       (abStep (alphaBeta n e) e beta depth node sh pe
                          (getPositionKey e (board st2)) checkers staticEval (unat (ply t)))
                       (alpha, 0, - INFINITE e, NO_MOVE,
                        createMoveSelector e (board t) TT_MOVE (pe_bestMove pe), t) of
                  None \<Rightarrow> None
                | Some (BetaCutoff score, u) \<Rightarrow> Some (score, u)
                | Some (LoopDone l bs bm, u) \<Rightarrow>
                    Some (finishNode e checkers depth alpha staticEval pe
                            (getPositionKey e (board st2)) l bs bm u)))
       in
       if node = NON_PV \<and> pe_depth pe \<ge> depth
          \<and> (pe_bound pe = EXACT \<or> pe_bound pe = LOWER \<and> s \<ge> beta
             \<or> pe_bound pe = UPPER \<and> s \<le> alpha)
       then Some (s, st2)
       else if node = NON_PV \<and> \<not> checkers \<and> depth > 3 \<and> staticEval \<ge> beta
               \<and> hasNonPawnMaterial e (board st2) (sideToMove e (board st2))
       then
         (case alphaBeta n e (- beta) (- beta + 1) (depth - 4) NON_PV (Suc sh)
                 (descendNull e (unat (ply st2)) st2) of
            None \<Rightarrow> None
          | Some (r, t) \<Rightarrow>
              if - r \<ge> beta then Some (- r, ascendNull e t) else moves (ascendNull e t))
       else moves st2)"
  proof (cases "node = NON_PV \<and> pe_depth pe \<ge> depth
          \<and> (pe_bound pe = EXACT
             \<or> pe_bound pe = LOWER \<and> adjustNodeScoreFromTT e (pe_nodeScore pe) (ply st2) \<ge> beta
             \<or> pe_bound pe = UPPER \<and> adjustNodeScoreFromTT e (pe_nodeScore pe) (ply st2) \<le> alpha)")
    case True
    then have c: "(node = NON_PV \<and> pe_depth pe \<ge> depth
          \<and> (pe_bound pe = EXACT
             \<or> pe_bound pe = LOWER \<and> adjustNodeScoreFromTT e (pe_nodeScore pe) (ply st2) \<ge> beta
             \<or> pe_bound pe = UPPER \<and> adjustNodeScoreFromTT e (pe_nodeScore pe) (ply st2) \<le> alpha))
          = True"
      by simp
    show ?thesis
      unfolding alphaBeta_probe[OF d nd oot pr] ttCutoff_hit Let_def
      by (simp only: c if_True option.case)
  next
    case False
    then have c: "(node = NON_PV \<and> pe_depth pe \<ge> depth
          \<and> (pe_bound pe = EXACT
             \<or> pe_bound pe = LOWER \<and> adjustNodeScoreFromTT e (pe_nodeScore pe) (ply st2) \<ge> beta
             \<or> pe_bound pe = UPPER \<and> adjustNodeScoreFromTT e (pe_nodeScore pe) (ply st2) \<le> alpha))
          = False"
      by simp
    show ?thesis
      unfolding alphaBeta_probe[OF d nd oot pr] ttCutoff_hit Let_def
      by (simp only: c if_False if_True option.case searchNode_hit_unfold searchMoves_unfold Let_def)
  qed
next
  show "abStep (alphaBeta n e) e beta depth node sh pe key checkers staticEval cur
        (a, l, bs, bm, ms, t) =
      (case getNextBestMove e (board t) ms of (m, ms1) \<Rightarrow>
        if m = NO_MOVE then Some (Return (LoopDone l bs bm, t))
        else if \<not> isLegalMove e (board t) m then Some (Continue (a, l, bs, bm, ms1, t))
        else if (node = NON_PV \<or> 0 < l) \<and> depth < 4 \<and> \<not> checkers
                \<and> \<not> isInteresting e (board t) m \<and> staticEval + 150 * uint depth \<le> a
        then Some (Continue (a, Suc l, bs, bm, ms1, t))
        else
          (case
             (if node = NON_PV \<or> 0 < l
              then (case alphaBeta n e (- a - 1) (- a)
                           (depth - (if 0 < l \<and> 1 < depth then 2 else 1)) NON_PV (Suc sh)
                           (descend e cur m t) of
                      None \<Rightarrow> None
                    | Some (r, u) \<Rightarrow>
                        if node \<noteq> NON_PV \<and> (l = 0 \<or> a < - r)
                        then (case alphaBeta n e (- beta) (- a) (depth - 1) PV (Suc sh) u of
                                None \<Rightarrow> None
                              | Some (r2, u2) \<Rightarrow> Some (- r2, u2))
                        else Some (- r, u))
              else (case alphaBeta n e (- beta) (- a) (depth - 1) PV (Suc sh)
                           (descend e cur m t) of
                      None \<Rightarrow> None
                    | Some (r2, u2) \<Rightarrow> Some (- r2, u2))) of
             None \<Rightarrow> None
           | Some (score, u) \<Rightarrow>
               if bs < score \<and> a < score \<and> beta \<le> score
               then Some (Return (BetaCutoff score,
                      if stop (ascend e m u) then ascend e m u
                      else saveTT e pe key m depth LOWER
                             (adjustNodeScoreToTT e score (ply (ascend e m u))) staticEval
                             (ascend e m u)))
               else Some (Continue
                      (if bs < score \<and> a < score then score else a, Suc l,
                       if bs < score then score else bs, if bs < score then m else bm, ms1,
                       if bs < score \<and> a < score then storePV m sh (Suc sh) (ascend e m u)
                       else ascend e m u))))"
    by (simp only: abStep_unfold pvSearch_unfold)
qed

theorem table_hit_cutoff_witness:
  "(2 :: Depth) \<noteq> 0
   \<and> \<not> (NON_PV \<noteq> ROOT \<and> isDraw toyEnv (board ((toyStart 3 1000)\<lparr>tt := toyTable\<rparr>)))
   \<and> outOfTime toyEnv (countNode (resetPV 0 ((toyStart 3 1000)\<lparr>tt := toyTable\<rparr>)))
       = (False, snd (outOfTime toyEnv (countNode (resetPV 0 ((toyStart 3 1000)\<lparr>tt := toyTable\<rparr>)))))
   \<and> probeTranspositionTable toyEnv toyTable 3
       = (\<lparr>pe_slot = 3, pe_bestMove = 2, pe_depth = 5, pe_bound = LOWER,
           pe_nodeScore = 7, pe_staticEvaluation = 1\<rparr>, True)
   \<and> alphaBeta (Suc 5) toyEnv 0 5 2 NON_PV 0 ((toyStart 3 1000)\<lparr>tt := toyTable\<rparr>)
       = Some (7, snd (outOfTime toyEnv (countNode (resetPV 0 ((toyStart 3 1000)\<lparr>tt := toyTable\<rparr>)))))
   \<and> outOfTime toyEnv (countNode (resetPV 0 ((toyStart 3 1000)\<lparr>tt := toyTableRFP\<rparr>)))
       = (False, snd (outOfTime toyEnv (countNode (resetPV 0 ((toyStart 3 1000)\<lparr>tt := toyTableRFP\<rparr>)))))
   \<and> probeTranspositionTable toyEnv toyTableRFP 3
       = (\<lparr>pe_slot = 3, pe_bestMove = 1, pe_depth = 0, pe_bound = LOWER,
           pe_nodeScore = 7, pe_staticEvaluation = 1000\<rparr>, True)
   \<and> alphaBeta (Suc 5) toyEnv 0 5 2 NON_PV 0 ((toyStart 3 1000)\<lparr>tt := toyTableRFP\<rparr>)
       = Some (1000, snd (outOfTime toyEnv (countNode (resetPV 0 ((toyStart 3 1000)\<lparr>tt := toyTableRFP\<rparr>)))))
   \<and> \<not> (PV \<noteq> ROOT \<and> isDraw toyHint (board ((toyStart 3 1000)\<lparr>tt := toyTableHint\<rparr>)))
   \<and> outOfTime toyHint (countNode (resetPV 0 ((toyStart 3 1000)\<lparr>tt := toyTableHint\<rparr>)))
       = (False, snd (outOfTime toyHint (countNode (resetPV 0 ((toyStart 3 1000)\<lparr>tt := toyTableHint\<rparr>)))))
   \<and> probeTranspositionTable toyHint toyTableHint 3
       = (\<lparr>pe_slot = 3, pe_bestMove = 2, pe_depth = 0, pe_bound = UPPER,
           pe_nodeScore = 0, pe_staticEvaluation = 1\<rparr>, True)
   \<and> alphaBeta (Suc 5) toyHint (- 10) 10 2 PV 0 ((toyStart 3 1000)\<lparr>tt := toyTableHint\<rparr>)
       = (case loopFuel 5
                 (abStep (alphaBeta 5 toyHint) toyHint 10 2 PV 0
                    \<lparr>pe_slot = 3, pe_bestMove = 2, pe_depth = 0, pe_bound = UPPER,
                      pe_nodeScore = 0, pe_staticEvaluation = 1\<rparr> 3 False 1 0)
                 (- 10, 0, - 32001, NO_MOVE, [2, 1],
                  snd (outOfTime toyHint
                         (countNode (resetPV 0 ((toyStart 3 1000)\<lparr>tt := toyTableHint\<rparr>))))) of
            None \<Rightarrow> None
          | Some (BetaCutoff score, u) \<Rightarrow> Some (score, u)
          | Some (LoopDone l bs bm, u) \<Rightarrow>
              Some (finishNode toyHint False 2 (- 10) 1
                      \<lparr>pe_slot = 3, pe_bestMove = 2, pe_depth = 0, pe_bound = UPPER,
                        pe_nodeScore = 0, pe_staticEvaluation = 1\<rparr> 3 l bs bm u))"
proof -
  define st where "st = (toyStart 3 1000)\<lparr>tt := toyTable\<rparr>"
  define st2 where "st2 = snd (outOfTime toyEnv (countNode (resetPV 0 st)))"
  define pe where "pe = \<lparr>pe_slot = 3, pe_bestMove = 2, pe_depth = 5, pe_bound = LOWER,
                          pe_nodeScore = 7, pe_staticEvaluation = 1\<rparr>"
  define sr where "sr = (toyStart 3 1000)\<lparr>tt := toyTableRFP\<rparr>"
  define sr2 where "sr2 = snd (outOfTime toyEnv (countNode (resetPV 0 sr)))"
  define per where "per = \<lparr>pe_slot = 3, pe_bestMove = 1, pe_depth = 0, pe_bound = LOWER,
                          pe_nodeScore = 7, pe_staticEvaluation = 1000\<rparr>"
  define sh where "sh = (toyStart 3 1000)\<lparr>tt := toyTableHint\<rparr>"
  define sh2 where "sh2 = snd (outOfTime toyHint (countNode (resetPV 0 sh)))"
  define peh where "peh = \<lparr>pe_slot = 3, pe_bestMove = 2, pe_depth = 0, pe_bound = UPPER,
                          pe_nodeScore = 0, pe_staticEvaluation = 1\<rparr>"
  have d: "(2 :: Depth) \<noteq> 0" by simp
  have nd: "\<not> (NON_PV \<noteq> ROOT \<and> isDraw toyEnv (board st))" by (simp add: toyEnv_def)
  have ndr: "\<not> (NON_PV \<noteq> ROOT \<and> isDraw toyEnv (board sr))" by (simp add: toyEnv_def)
  have ndh: "\<not> (PV \<noteq> ROOT \<and> isDraw toyHint (board sh))" by (simp add: toyEnv_def toyHint_def)
  have oot: "outOfTime toyEnv (countNode (resetPV 0 st)) = (False, st2)"
    by (simp add: st2_def st_def outOfTime_def getTimeNs_def countNode_def resetPV_def
          toyEnv_def toyStart_def Let_def)
  have ootr: "outOfTime toyEnv (countNode (resetPV 0 sr)) = (False, sr2)"
    by (simp add: sr2_def sr_def outOfTime_def getTimeNs_def countNode_def resetPV_def
          toyEnv_def toyStart_def Let_def)
  have ooth: "outOfTime toyHint (countNode (resetPV 0 sh)) = (False, sh2)"
    by (simp add: sh2_def sh_def outOfTime_def getTimeNs_def countNode_def resetPV_def
          toyEnv_def toyHint_def toyStart_def Let_def)
  have f: "tt st2 = toyTable" "board st2 = 3" "ply st2 = 0"
    by (simp_all add: st2_def st_def outOfTime_def getTimeNs_def countNode_def resetPV_def
          toyStart_def Let_def)
  have fr: "tt sr2 = toyTableRFP" "board sr2 = 3" "ply sr2 = 0"
    by (simp_all add: sr2_def sr_def outOfTime_def getTimeNs_def countNode_def resetPV_def
          toyStart_def Let_def)
  have fh: "tt sh2 = toyTableHint" "board sh2 = 3" "ply sh2 = 0"
    by (simp_all add: sh2_def sh_def outOfTime_def getTimeNs_def countNode_def resetPV_def
          toyStart_def Let_def)
  have p: "probeTranspositionTable toyEnv toyTable 3 = (pe, True)"
    by (simp add: toyEnv_def toyTable_def pe_def)
  have pr: "probeTranspositionTable toyEnv toyTableRFP 3 = (per, True)"
    by (simp add: toyEnv_def toyTableRFP_def per_def)
  have ph: "probeTranspositionTable toyHint toyTableHint 3 = (peh, True)"
    by (simp add: toyEnv_def toyHint_def toyTableHint_def peh_def)
  have k: "getPositionKey toyEnv 3 = 3" "getPositionKey toyHint 3 = 3"
    by (simp_all add: toyEnv_def toyHint_def)
  have p': "probeTranspositionTable toyEnv (tt st2) (getPositionKey toyEnv (board st2)) = (pe, True)"
    using p by (simp add: f k)
  have pr': "probeTranspositionTable toyEnv (tt sr2) (getPositionKey toyEnv (board sr2)) = (per, True)"
    using pr by (simp add: fr k)
  have ph': "probeTranspositionTable toyHint (tt sh2) (getPositionKey toyHint (board sh2)) = (peh, True)"
    using ph by (simp add: fh k)
  from table_hit_cutoff[THEN conjunct1, rule_format, OF d nd oot p', of 5 0 5]
  have r1: "alphaBeta (Suc 5) toyEnv 0 5 2 NON_PV 0 st = Some (7, st2)"
    by (simp add: pe_def toyEnv_def)
  from table_hit_cutoff[THEN conjunct1, rule_format, OF d ndr ootr pr', of 5 0 5]
  have r2: "alphaBeta (Suc 5) toyEnv 0 5 2 NON_PV 0 sr = Some (1000, sr2)"
    by (simp add: per_def toyEnv_def)
  have e1: "INFINITE toyHint = 32001" "getCheckers toyHint 3 = False"
    by (simp_all add: toyEnv_def toyHint_def)
  have e2: "createMoveSelector toyHint 3 TT_MOVE 2 = [2, 1]"
    by (simp add: toyEnv_def toyHint_def NO_MOVE_def)
  have e3: "hasNonPawnMaterial toyHint 3 (sideToMove toyHint 3) = True"
    by (simp add: toyEnv_def toyHint_def)
  have pf: "pe_bestMove peh = 2" "pe_depth peh = 0" "pe_bound peh = UPPER"
    "pe_staticEvaluation peh = 1" "pe_nodeScore peh = 0"
    by (simp_all add: peh_def)
  from table_hit_cutoff[THEN conjunct1, rule_format, OF d ndh ooth ph', of 5 "- 10" 10,
      unfolded Let_def fh k e1 e2 e3 pf if_False]
  have r3: "alphaBeta (Suc 5) toyHint (- 10) 10 2 PV 0 sh
       = (case loopFuel 5 (abStep (alphaBeta 5 toyHint) toyHint 10 2 PV 0 peh 3 False 1 0)
                 (- 10, 0, - 32001, NO_MOVE, [2, 1], sh2) of
            None \<Rightarrow> None
          | Some (BetaCutoff score, u) \<Rightarrow> Some (score, u)
          | Some (LoopDone l bs bm, u) \<Rightarrow> Some (finishNode toyHint False 2 (- 10) 1 peh 3 l bs bm u))"
    by (simp add: fh k e1 e2 e3 pf)
  from d nd oot p r1 ootr pr r2 ndh ooth ph r3
  show ?thesis
    unfolding st_def st2_def pe_def sr_def sr2_def per_def sh_def sh2_def peh_def
    by simp
qed

text \<open>
  C2 as stated fails in its second half. The entry found here has depth 0, below the
  remaining depth 2, so the hit gives no cutoff; the node returns the entry's stored
  static evaluation from reverse futility pruning, before a move selector exists: no
  move is tried and the entry's best move is never looked at. On the same position with
  an empty table the node searches its moves.
\<close>

theorem table_hit_cutoff_counterexample:
  "probeTranspositionTable toyEnv toyTableRFP 3
     = (\<lparr>pe_slot = 3, pe_bestMove = 1, pe_depth = 0, pe_bound = LOWER,
         pe_nodeScore = 7, pe_staticEvaluation = 1000\<rparr>, True)
   \<and> ttCutoff toyEnv False True
        \<lparr>pe_slot = 3, pe_bestMove = 1, pe_depth = 0, pe_bound = LOWER,
         pe_nodeScore = 7, pe_staticEvaluation = 1000\<rparr> 2 0 5 0 = None
   \<and> map_option fst (alphaBeta 6 toyEnv 0 5 2 NON_PV 0 ((toyStart 3 1000)\<lparr>tt := toyTableRFP\<rparr>))
       = Some 1000
   \<and> map_option (trace \<circ> snd)
        (alphaBeta 6 toyEnv 0 5 2 NON_PV 0 ((toyStart 3 1000)\<lparr>tt := toyTableRFP\<rparr>))
       = Some [NodeCounted, Polled False]
   \<and> map_option (trace \<circ> snd) (alphaBeta 6 toyEnv 0 5 2 NON_PV 0 (toyStart 3 1000))
       = Some [NodeCounted, Polled False, NodeCounted, Polled False, NodeCounted,
               TTWrite False, NodeCounted, TTWrite False]"
  by code_simp

subsection \<open>Training records\<close>

lemma isCheckmate_abs: "\<not> isCheckmate e s \<longleftrightarrow> \<bar>s\<bar> < GUARANTEE_CHECKMATE e"
  by (auto simp: isCheckmate_def abs_if)

text \<open>
  C9: after each search of the self-play loop, a record is put in front of the list
  exactly when the side to move is not in check, the score is no mate score
  (\<open>|score| < GUARANTEE_CHECKMATE\<close>) and the material is sufficient; its score is the
  search score, negated when Black is to move, and its FEN is that of the board the
  search was run on, taken before the best move is made.
\<close>

theorem training_record:
  "playGame (Suc n) m k e st previous file =
     (case startSearch m k e st of
        None \<Rightarrow> None
      | Some st1 \<Rightarrow>
          let score = mo_score (bestMove st1);
              previous1 =
                (if \<not> getCheckers e (board st1) \<and> \<bar>score\<bar> < GUARANTEE_CHECKMATE e
                    \<and> \<not> insufficientMaterial e (board st1)
                 then \<lparr>gd_score = (if sideToMove e (board st1) = BLACK then - score else score),
                       gd_fen = getFEN e (board st1)\<rparr> # previous
                 else previous)
          in if isEndOfGame e (board st1) (bestMove st1)
             then Some (file @ writeGameData previous1 (gameOutcome e (board st1) (bestMove st1)), st1)
             else playGame n m k e
                    (st1\<lparr>board := fst (makeMove e (board st1) (accumulator st1 0)
                                         (mo_move (bestMove st1))),
                         accumulator := (accumulator st1)
                           (0 := snd (makeMove e (board st1) (accumulator st1 0)
                                        (mo_move (bestMove st1))))\<rparr>)
                    previous1 file)"
proof -
  have col: "\<And>c. (c \<noteq> WHITE) = (c = BLACK)" by (case_tac c) auto
  show ?thesis
    by (simp add: recordPosition_def createGameData_def isCheckmate_abs[symmetric] col
          Let_def split: option.splits prod.splits)
qed

subsection \<open>The trace and the state\<close>

text \<open>
  The events are a faithful record: between the entry and the return of \<open>alphaBeta\<close>,
  \<open>nodes\<close> grows by the number of \<open>NodeCounted\<close> events, the clock is read once per
  \<open>Polled\<close> event, and the table is unchanged unless there is a \<open>TTWrite\<close> event.
\<close>

lemma recorded_refl: "recorded s s"
  by (simp add: recorded_def)

lemma recorded_trans: "recorded s t \<Longrightarrow> recorded t u \<Longrightarrow> recorded s u"
  unfolding recorded_def
  by (elim exE conjE, rule_tac x = "new @ newa" in exI) auto

lemma searchInvariant_recorded: "searchInvariant e recorded"
  unfolding searchInvariant_def qsInvariant_def
proof (intro conjI allI impI)
  fix s :: "('a, 'b, 'c) machine"
  show "recorded s (countNode s)"
    unfolding recorded_def by (rule exI[of _ "[NodeCounted]"]) (simp add: countNode_def)
  show "recorded s (snd (outOfTime e s))"
    unfolding recorded_def
    by (rule exI[of _ "[Polled (fst (outOfTime e s))]"])
       (simp add: outOfTime_def getTimeNs_def Let_def)
next
  fix cur m and s t :: "('a, 'b, 'c) machine"
  assume "recorded (descend e cur m s) t"
  then show "recorded s (ascend e m t)"
    by (auto simp: recorded_def descend_def ascend_def split: prod.splits)
next
  fix cur and s t :: "('a, 'b, 'c) machine"
  assume "recorded (descendNull e cur s) t"
  then show "recorded s (ascendNull e t)"
    by (auto simp: recorded_def descendNull_def ascendNull_def)
next
  fix pe key m d b x y and s :: "('a, 'b, 'c) machine"
  show "recorded s (saveTT e pe key m d b x y s)"
    unfolding recorded_def by (rule exI[of _ "[TTWrite (stop s)]"]) (simp add: saveTT_def)
next
  fix k and s :: "('a, 'b, 'c) machine"
  show "recorded s (resetPV k s)" by (simp add: recorded_def resetPV_def)
next
  fix m k c and s :: "('a, 'b, 'c) machine"
  show "recorded s (storePV m k c s)" by (simp add: recorded_def storePV_def)
qed (auto simp: recorded_refl intro: recorded_trans)

lemma alphaBeta_recorded:
  "alphaBeta n e alpha beta depth node sh st = Some (x, st1) \<Longrightarrow> recorded st st1"
  by (rule alphaBeta_inv[OF searchInvariant_recorded])

subsection \<open>Polling the clock\<close>

lemma traceExt_True: "traceExt (\<lambda>x. True) s t \<longleftrightarrow> (\<exists>new. trace t = trace s @ new)"
  by (simp add: traceExt_def list_all_iff)

lemma alphaBeta_head:
  assumes run: "alphaBeta n e alpha beta depth node sh st = Some (x, st1)" and d: "depth \<noteq> 0"
  shows "if node \<noteq> ROOT \<and> isDraw e (board st)
         then trace st1 = trace st @ [NodeCounted]
         else \<exists>b rest. trace st1 = trace st @ NodeCounted # Polled b # rest"
proof (cases n)
  case 0
  with run show ?thesis by simp
next
  case (Suc m)
  define s1 where "s1 = countNode (resetPV sh st)"
  have b: "board s1 = board st" and t1: "trace s1 = trace st @ [NodeCounted]"
    by (simp_all add: s1_def countNode_def resetPV_def)
  obtain timeout s2 where oot: "outOfTime e s1 = (timeout, s2)" by (cases "outOfTime e s1") auto
  then have t2: "trace s2 = trace st @ [NodeCounted, Polled timeout]"
    using t1 by (auto simp: outOfTime_def getTimeNs_def Let_def)
  show ?thesis
  proof (cases "node \<noteq> ROOT \<and> isDraw e (board st)")
    case True
    then have "(node \<noteq> ROOT \<and> isDraw e (board s1)) = True" using b by simp
    with run Suc d have "st1 = s1" by (simp add: Let_def s1_def[symmetric])
    with True t1 show ?thesis by simp
  next
    case False
    then have nd: "(node \<noteq> ROOT \<and> isDraw e (board s1)) = False" using b by simp
    have "traceExt (\<lambda>x. True) s2 st1"
    proof (cases timeout)
      case True
      with run Suc d oot have "st1 = s2" by (simp add: Let_def s1_def[symmetric] nd)
      then show ?thesis by (simp add: traceExt_refl)
    next
      case nt: False
      obtain pe hasEvaluation where
        pr: "probeTranspositionTable e (tt s2) (getPositionKey e (board s2)) = (pe, hasEvaluation)"
        by (cases "probeTranspositionTable e (tt s2) (getPositionKey e (board s2))") auto
      show ?thesis
      proof (cases "ttCutoff e (node \<noteq> NON_PV) hasEvaluation pe depth alpha beta (ply s2)")
        case (Some sc)
        with run Suc d oot nt pr have "st1 = s2" by (simp add: Let_def s1_def[symmetric] nd)
        then show ?thesis by (simp add: traceExt_refl)
      next
        case None
        with run Suc d oot nt pr have sn:
          "searchNode (alphaBeta m e) m e alpha beta depth node sh pe hasEvaluation
             (getPositionKey e (board s2)) (if hasEvaluation then pe_bestMove pe else NO_MOVE) s2
           = Some (x, st1)"
          by (simp add: Let_def s1_def[symmetric] nd)
        have inv: "searchInvariant e (traceExt (\<lambda>x. True))"
          by (rule searchInvariant_traceExt) simp_all
        have ih: "\<forall>a b d nd k s x s1. alphaBeta m e a b d nd k s = Some (x, s1)
                    \<longrightarrow> traceExt (\<lambda>x. True) s s1"
          using alphaBeta_inv[OF inv] by blast
        from searchNode_inv[OF inv ih sn] show ?thesis .
      qed
    qed
    then obtain rest where "trace st1 = trace s2 @ rest" by (auto simp: traceExt_True)
    with t2 False show ?thesis by simp
  qed
qed

lemma qsLoop_inv:
  assumes inv: "qsInvariant e R"
    and loop: "loopFuel n (qsStep (quiescenceSearch m e) e beta cur sh) (a0, b0, ms0, st)
               = Some (x, t)"
  shows "R st t"
proof -
  have rec: "\<forall>a b k s x s1. quiescenceSearch m e a b k s = Some (x, s1) \<longrightarrow> R s s1"
    using quiescenceSearch_inv[OF inv] by blast
  have "case (x, t) of (y, u) \<Rightarrow> R st u"
  proof (rule loopFuel_rule[OF loop, where I = "\<lambda>s. R st (snd (snd (snd s)))"])
    show "R st (snd (snd (snd (a0, b0, ms0, st))))" using inv by (simp add: qsInvariant_def)
  next
    fix s s1
    assume a: "R st (snd (snd (snd s)))"
      and b: "qsStep (quiescenceSearch m e) e beta cur sh s = Some (Continue s1)"
    obtain a1 b1 m1 t1 where s: "s = (a1, b1, m1, t1)" by (cases s) auto
    obtain a2 b2 m2 t2 where s1: "s1 = (a2, b2, m2, t2)" by (cases s1) auto
    from qsStep_inv[OF inv rec b[unfolded s]] s1 have "R t1 t2" by simp
    with a s s1 show "R st (snd (snd (snd s1)))" by (auto intro: qsInvariant_trans[OF inv])
  next
    fix s r
    assume a: "R st (snd (snd (snd s)))"
      and b: "qsStep (quiescenceSearch m e) e beta cur sh s = Some (Return r)"
    obtain a1 b1 m1 t1 where s: "s = (a1, b1, m1, t1)" by (cases s) auto
    obtain y u where r: "r = (y, u)" by (cases r) auto
    from qsStep_inv[OF inv rec b[unfolded s]] r have "R t1 u" by simp
    with a s r show "case r of (y, u) \<Rightarrow> R st u" by (auto intro: qsInvariant_trans[OF inv])
  qed
  then show ?thesis by simp
qed

lemma quiescenceSearch_head:
  assumes inv: "qsInvariant e R"
    and run: "quiescenceSearch n e alpha beta sh st = Some (y, st2)"
  shows "R (countNode st) st2"
proof (cases n)
  case 0
  with run show ?thesis by simp
next
  case (Suc m)
  have refl: "R (countNode st) (countNode st)" using inv by (simp add: qsInvariant_def)
  show ?thesis
  proof (cases "isDraw e (board (countNode st))")
    case True
    with run Suc refl show ?thesis by (simp add: Let_def)
  next
    case False
    define bs where "bs = (if getCheckers e (board (countNode st))
       then - CHECKMATE e + uint (ply (countNode st))
       else evaluation e (accumulator (countNode st) (unat (ply (countNode st))))
              (sideToMove e (board (countNode st))))"
    show ?thesis
    proof (cases "bs > alpha \<and> bs \<ge> beta")
      case True
      with run Suc False refl show ?thesis by (simp add: Let_def bs_def)
    next
      case nocut: False
      from run Suc False nocut obtain a0 b0 ms0 where
        "loopFuel m (qsStep (quiescenceSearch m e) e beta (unat (ply (countNode st))) sh)
           (a0, b0, ms0, countNode st) = Some (y, st2)"
        by (simp add: Let_def bs_def split: if_splits)
      then show ?thesis by (rule qsLoop_inv[OF inv])
    qed
  qed
qed

lemma alphaBeta_drawn:
  assumes run: "alphaBeta n e alpha beta depth node sh st = Some (x, st1)" and d: "depth \<noteq> 0"
    and dr: "node \<noteq> ROOT \<and> isDraw e (board st)"
  shows "x = DRAW e \<and> st1 = countNode (resetPV sh st)"
proof (cases n)
  case 0
  with run show ?thesis by simp
next
  case (Suc m)
  have "board (countNode (resetPV sh st)) = board st" by (simp add: countNode_def resetPV_def)
  with dr have "(node \<noteq> ROOT \<and> isDraw e (board (countNode (resetPV sh st)))) = True" by simp
  with run Suc d show ?thesis by (simp add: Let_def)
qed

text \<open>
  C6, as the code has it: a call of \<open>alphaBeta\<close> with depth above 0 counts its node and,
  unless the node is not the root and its position is a draw, calls \<open>outOfTime\<close> right
  after; a non-root node whose position is a draw is counted once and returns \<open>DRAW\<close>
  without a call of \<open>outOfTime\<close>; \<open>quiescenceSearch\<close> counts the node it is called on
  first, counts every further node it visits, and does nothing else to the trace: it
  never calls \<open>outOfTime\<close>.
\<close>

theorem poll_at_counted_nodes:
  "(alphaBeta n e alpha beta depth node sh st = Some (x, st1) \<longrightarrow> depth \<noteq> 0 \<longrightarrow>
      (if node \<noteq> ROOT \<and> isDraw e (board st)
       then x = DRAW e \<and> trace st1 = trace st @ [NodeCounted] \<and> nodes st1 = nodes st + 1
            \<and> clock st1 = clock st
       else \<exists>b rest. trace st1 = trace st @ NodeCounted # Polled b # rest))
   \<and> (quiescenceSearch n e alpha beta sh st = Some (y, st2) \<longrightarrow>
      (\<exists>new. trace st2 = trace st @ NodeCounted # new \<and> set new \<subseteq> {NodeCounted}
         \<and> nodes st2 = nodes st + of_nat (Suc (length new)) \<and> clock st2 = clock st))"
proof (intro conjI impI)
  assume run: "alphaBeta n e alpha beta depth node sh st = Some (x, st1)" and d: "depth \<noteq> 0"
  show "if node \<noteq> ROOT \<and> isDraw e (board st)
       then x = DRAW e \<and> trace st1 = trace st @ [NodeCounted] \<and> nodes st1 = nodes st + 1
            \<and> clock st1 = clock st
       else \<exists>b rest. trace st1 = trace st @ NodeCounted # Polled b # rest"
  proof (cases "node \<noteq> ROOT \<and> isDraw e (board st)")
    case True
    from alphaBeta_drawn[OF run d True] True show ?thesis
      by (simp add: countNode_def resetPV_def)
  next
    case False
    with alphaBeta_head[OF run d] show ?thesis by auto
  qed
next
  assume q: "quiescenceSearch n e alpha beta sh st = Some (y, st2)"
  have "qsInvariant e (\<lambda>s t. tt t = tt s \<and> traceExt (\<lambda>x. x = NodeCounted) s t)"
    by (rule qsInvariant_noWrite) simp
  from quiescenceSearch_head[OF this q] obtain new where
    n1: "trace st2 = trace (countNode st) @ new" and n2: "set new \<subseteq> {NodeCounted}"
    by (auto simp: traceExt_def list_all_iff)
  from quiescenceSearch_head[OF searchInvariant_qs[OF searchInvariant_recorded] q]
  obtain new2 where r1: "trace st2 = trace (countNode st) @ new2"
    and r2: "nodes st2 = nodes (countNode st)
               + of_nat (length (filter (\<lambda>x. x = NodeCounted) new2))"
    and r3: "clock st2 = clock (countNode st) + length (filter isPolled new2)"
    by (auto simp: recorded_def)
  from n1 r1 have eq: "new2 = new" by simp
  from n2 have f1: "filter (\<lambda>x. x = NodeCounted) new = new"
    by (auto simp: filter_id_conv)
  from n2 have f2: "filter isPolled new = []"
    by (auto simp: filter_empty_conv)
  from n1 n2 r2 r3 eq f1 f2
  show "\<exists>new. trace st2 = trace st @ NodeCounted # new \<and> set new \<subseteq> {NodeCounted}
         \<and> nodes st2 = nodes st + of_nat (Suc (length new)) \<and> clock st2 = clock st"
    by (intro exI[of _ new]) (simp add: countNode_def)
qed

lemma toy_drawn_runs:
  "\<not> Option.is_none (alphaBeta 6 toyDrawn (- 32001) 32001 2 NON_PV 1 (toyStart 3 1000))"
  by code_simp

theorem poll_at_counted_nodes_witness:
  "\<exists>x st1 y st2 z st3.
     alphaBeta 12 toyEnv (- 32001) 32001 2 ROOT 0 (toyStart 3 1000) = Some (x, st1)
     \<and> (2 :: Depth) \<noteq> 0
     \<and> (\<exists>b rest. trace st1 = trace (toyStart 3 1000) @ NodeCounted # Polled b # rest)
     \<and> quiescenceSearch 12 toyEnv (- 32001) 32001 0 (toyStart 3 1000) = Some (y, st2)
     \<and> (\<exists>new. trace st2 = trace (toyStart 3 1000) @ NodeCounted # new
           \<and> set new \<subseteq> {NodeCounted}
           \<and> nodes st2 = nodes (toyStart 3 1000) + of_nat (Suc (length new))
           \<and> clock st2 = clock (toyStart 3 1000))
     \<and> alphaBeta 6 toyDrawn (- 32001) 32001 2 NON_PV 1 (toyStart 3 1000) = Some (z, st3)
     \<and> NON_PV \<noteq> ROOT \<and> isDraw toyDrawn (board (toyStart 3 1000))
     \<and> z = DRAW toyDrawn \<and> trace st3 = trace (toyStart 3 1000) @ [NodeCounted]
     \<and> nodes st3 = nodes (toyStart 3 1000) + 1 \<and> clock st3 = clock (toyStart 3 1000)"
proof -
  obtain x st1 where a: "alphaBeta 12 toyEnv (- 32001) 32001 2 ROOT 0 (toyStart 3 1000) = Some (x, st1)"
    using toy_alphaBeta_runs by (auto simp: Option.is_none_def)
  obtain y st2 where q: "quiescenceSearch 12 toyEnv (- 32001) 32001 0 (toyStart 3 1000) = Some (y, st2)"
    using toy_quiescence_runs by (auto simp: Option.is_none_def)
  obtain z st3 where c: "alphaBeta 6 toyDrawn (- 32001) 32001 2 NON_PV 1 (toyStart 3 1000) = Some (z, st3)"
    using toy_drawn_runs by (auto simp: Option.is_none_def)
  have d: "(2 :: Depth) \<noteq> 0" by simp
  have dr: "NON_PV \<noteq> ROOT" "isDraw toyDrawn (board (toyStart 3 1000))"
    by (simp_all add: toyDrawn_def)
  from poll_at_counted_nodes[THEN conjunct1, rule_format, OF a d]
  have r1: "\<exists>b rest. trace st1 = trace (toyStart 3 1000) @ NodeCounted # Polled b # rest"
    by simp
  from poll_at_counted_nodes[THEN conjunct1, rule_format, OF c d] dr
  have r3: "z = DRAW toyDrawn \<and> trace st3 = trace (toyStart 3 1000) @ [NodeCounted]
     \<and> nodes st3 = nodes (toyStart 3 1000) + 1 \<and> clock st3 = clock (toyStart 3 1000)"
    by simp
  from r1 r3 a q c d dr poll_at_counted_nodes[THEN conjunct2, rule_format, OF q]
  show ?thesis by blast
qed

text \<open>
  C6 as stated fails in \<open>quiescenceSearch\<close>: in this search two nodes are counted, the
  second one by \<open>quiescenceSearch\<close>, and no call of \<open>outOfTime\<close> follows it before the
  search of depth 1 is over.
\<close>

theorem poll_at_counted_nodes_counterexample:
  "map_option nodes (startSearch 4 6 toyEnv (toyStart 1 4)) = Some 2
   \<and> map_option trace (startSearch 4 6 toyEnv (toyStart 1 4)) =
       Some [Polled False, NodeCounted, Polled False, NodeCounted, TTWrite False,
             Printed (Info 1 ''cp'' (- 3) 2 2000 0 ''a''), Polled True,
             Printed (Bestmove ''a'')]
   \<and> map_option (trace \<circ> snd) (quiescenceSearch 3 toyEnv (- 32001) 32001 0 (toyStart 0 1000))
       = Some [NodeCounted]"
  by code_simp

subsection \<open>The first info line\<close>

lemma searchLoop_traceExt:
  assumes P: "P NodeCounted" "\<And>b. P (Polled b)" "P (TTWrite False)" "\<And>l. P (Printed l)"
    and loop: "loopFuel n (searchStep k e) (a0, b0, d0, bf0, t0) = Some (buffers, t)"
  shows "traceExt P t0 t"
proof -
  have "case (buffers, t) of (b, u) \<Rightarrow> traceExt P t0 u"
  proof (rule loopFuel_rule[OF loop, where I = "\<lambda>s. traceExt P t0 (snd (snd (snd (snd s))))"])
    show "traceExt P t0 (snd (snd (snd (snd (a0, b0, d0, bf0, t0)))))"
      by (simp add: traceExt_refl)
  next
    fix s s1
    assume a: "traceExt P t0 (snd (snd (snd (snd s))))" and b: "searchStep k e s = Some (Continue s1)"
    obtain a1 b1 d1 bf1 t1 where s: "s = (a1, b1, d1, bf1, t1)" by (cases s) auto
    obtain a2 b2 d2 bf2 t2 where s1: "s1 = (a2, b2, d2, bf2, t2)" by (cases s1) auto
    from searchStep_traceExt[OF P b[unfolded s]] s1 have "traceExt P t1 t2" by simp
    with a s s1 show "traceExt P t0 (snd (snd (snd (snd s1))))" by (auto intro: traceExt_trans)
  next
    fix s r
    assume a: "traceExt P t0 (snd (snd (snd (snd s))))" and b: "searchStep k e s = Some (Return r)"
    obtain a1 b1 d1 bf1 t1 where s: "s = (a1, b1, d1, bf1, t1)" by (cases s) auto
    obtain bf t2 where r: "r = (bf, t2)" by (cases r) auto
    from searchStep_traceExt[OF P b[unfolded s]] r have "traceExt P t1 t2" by simp
    with a s r show "case r of (b, u) \<Rightarrow> traceExt P t0 u" by (auto intro: traceExt_trans)
  qed
  then show ?thesis by simp
qed

lemma outOfTime_result:
  assumes "outOfTime e s = (b, s1)"
  shows "trace s1 = trace s @ [Polled b] \<and> stop s1 = b \<and> print s1 = print s
         \<and> bestMove s1 = bestMove s \<and> nodes s1 = nodes s"
  using assms by (auto simp: outOfTime_def getTimeNs_def Let_def)

lemma alphaBeta_root_out_of_time:
  assumes "outOfTime e (countNode (resetPV sh st)) = (True, st2)" and "depth \<noteq> 0"
  shows "alphaBeta (Suc k) e alpha beta depth ROOT sh st = Some (DRAW e, st2)"
  using assms by (simp add: Let_def)

text \<open>
  C5 fails on the code. If the first check of the loop finds the time used up, no
  iteration runs: nothing but that poll and the \<open>bestmove\<close> line is printed, the line
  is printed from the buffers no \<open>pvToString\<close> has written, and the root best move
  handed back is the one the caller passed in. The same happens if the first check
  passes and the time is used up at the root node of the depth-1 search and at the
  check that follows. In both runs the stop flag at entry plays no part.
\<close>

theorem no_info_line_when_time_is_up:
  "(fst (outOfTime e ((snd (getTimeNs e st))\<lparr>startNs := fst (getTimeNs e st)\<rparr>)) \<longrightarrow>
      (\<exists>st1. startSearch (Suc n) k e st = Some st1
         \<and> trace st1 = trace st
              @ Polled True # (if print st then [Printed BestmoveUninitialised] else [])
         \<and> bestMove st1 = bestMove st))
   \<and> (\<not> fst (outOfTime e ((snd (getTimeNs e st))\<lparr>startNs := fst (getTimeNs e st)\<rparr>)) \<longrightarrow>
       fst (outOfTime e (countNode (resetPV 0
             (snd (outOfTime e ((snd (getTimeNs e st))\<lparr>startNs := fst (getTimeNs e st)\<rparr>)))))) \<longrightarrow>
       fst (outOfTime e (snd (outOfTime e (countNode (resetPV 0
             (snd (outOfTime e ((snd (getTimeNs e st))\<lparr>startNs := fst (getTimeNs e st)\<rparr>)))))))) \<longrightarrow>
      (\<exists>st1. startSearch (Suc (Suc n)) (Suc k) e st = Some st1
         \<and> trace st1 = trace st
              @ [Polled False, NodeCounted, Polled True, Polled True]
              @ (if print st then [Printed BestmoveUninitialised] else [])
         \<and> bestMove st1 = bestMove st))"
proof (intro conjI impI)
  define t0 where "t0 = (snd (getTimeNs e st))\<lparr>startNs := fst (getTimeNs e st)\<rparr>"
  have f0: "trace t0 = trace st" "print t0 = print st" "bestMove t0 = bestMove st"
    by (simp_all add: t0_def getTimeNs_def)
  have start: "\<And>m j. startSearch m j e st =
      (case loopFuel m (searchStep j e) (- INFINITE e, INFINITE e, 1, None, t0) of
         None \<Rightarrow> None
       | Some (buffers, u) \<Rightarrow>
           Some (if print u then u\<lparr>trace := trace u @ [Printed (printBestmove buffers)]\<rparr> else u))"
    by (simp add: startSearch_def t0_def split: prod.splits)
  {
    assume "fst (outOfTime e t0)"
    then obtain t1 where o1: "outOfTime e t0 = (True, t1)" by (cases "outOfTime e t0") auto
    note f1 = outOfTime_result[OF o1]
    have "loopFuel (Suc n) (searchStep k e) (- INFINITE e, INFINITE e, 1, None, t0)
          = Some (None, t1)"
      using o1 by (simp add: searchStep_def)
    then have "startSearch (Suc n) k e st
          = Some (if print t1 then t1\<lparr>trace := trace t1 @ [Printed (printBestmove None)]\<rparr> else t1)"
      by (simp add: start)
    with f0 f1
    show "\<exists>st1. startSearch (Suc n) k e st = Some st1
         \<and> trace st1 = trace st
              @ Polled True # (if print st then [Printed BestmoveUninitialised] else [])
         \<and> bestMove st1 = bestMove st"
      by (simp add: printBestmove_def)
  }
  {
    assume "\<not> fst (outOfTime e t0)"
    then obtain t1 where o1: "outOfTime e t0 = (False, t1)" by (cases "outOfTime e t0") auto
    then have t1: "snd (outOfTime e t0) = t1" by simp
    assume "fst (outOfTime e (countNode (resetPV 0 (snd (outOfTime e t0)))))"
    then obtain t2 where o2: "outOfTime e (countNode (resetPV 0 t1)) = (True, t2)"
      unfolding t1 by (cases "outOfTime e (countNode (resetPV 0 t1))") auto
    then have t2: "snd (outOfTime e (countNode (resetPV 0 t1))) = t2" by simp
    assume "fst (outOfTime e (snd (outOfTime e (countNode (resetPV 0 (snd (outOfTime e t0)))))))"
    then obtain t3 where o3: "outOfTime e t2 = (True, t3)"
      unfolding t1 t2 by (cases "outOfTime e t2") auto
    note f1 = outOfTime_result[OF o1]
    note f2 = outOfTime_result[OF o2]
    note f3 = outOfTime_result[OF o3]
    have c: "trace (countNode (resetPV 0 t1)) = trace t1 @ [NodeCounted]"
      "print (countNode (resetPV 0 t1)) = print t1"
      "bestMove (countNode (resetPV 0 t1)) = bestMove t1"
      by (simp_all add: countNode_def resetPV_def)
    have ab: "alphaBeta (Suc k) e (- INFINITE e) (INFINITE e) 1 ROOT 0 t1 = Some (DRAW e, t2)"
      by (rule alphaBeta_root_out_of_time[OF o2]) simp
    have s1: "searchStep (Suc k) e (- INFINITE e, INFINITE e, 1, None, t0)
        = Some (Continue (if DRAW e > - INFINITE e then - INFINITE e else - INFINITE e,
                          if DRAW e < INFINITE e then INFINITE e else INFINITE e,
                          1, None, t2))"
      using o1 ab f2 unfolding searchStep_def by simp
    have s2: "\<And>a b. searchStep (Suc k) e (a, b, 1, None, t2) = Some (Return (None, t3))"
      using o3 by (simp add: searchStep_def)
    have "loopFuel (Suc (Suc n)) (searchStep (Suc k) e) (- INFINITE e, INFINITE e, 1, None, t0)
          = Some (None, t3)"
      by (simp add: s1 s2)
    then have "startSearch (Suc (Suc n)) (Suc k) e st
          = Some (if print t3 then t3\<lparr>trace := trace t3 @ [Printed (printBestmove None)]\<rparr> else t3)"
      by (simp add: start)
    with f0 f1 f2 f3 c
    show "\<exists>st1. startSearch (Suc (Suc n)) (Suc k) e st = Some st1
         \<and> trace st1 = trace st
              @ [Polled False, NodeCounted, Polled True, Polled True]
              @ (if print st then [Printed BestmoveUninitialised] else [])
         \<and> bestMove st1 = bestMove st"
      by (simp add: printBestmove_def)
  }
qed

theorem no_info_line_when_time_is_up_witness:
  "\<exists>st1 st2.
     print (toyStart 1 0) \<and> \<not> stop (toyStart 1 0)
     \<and> fst (outOfTime toyEnv
          ((snd (getTimeNs toyEnv (toyStart 1 0)))
             \<lparr>startNs := fst (getTimeNs toyEnv (toyStart 1 0))\<rparr>))
     \<and> startSearch (Suc 3) 6 toyEnv (toyStart 1 0) = Some st1
     \<and> trace st1 = [Polled True, Printed BestmoveUninitialised]
     \<and> bestMove st1 = bestMove (toyStart 1 0)
     \<and> print (toyStart 1 2) \<and> \<not> stop (toyStart 1 2)
     \<and> \<not> fst (outOfTime toyEnv
          ((snd (getTimeNs toyEnv (toyStart 1 2)))
             \<lparr>startNs := fst (getTimeNs toyEnv (toyStart 1 2))\<rparr>))
     \<and> fst (outOfTime toyEnv (countNode (resetPV 0
             (snd (outOfTime toyEnv
                ((snd (getTimeNs toyEnv (toyStart 1 2)))
                   \<lparr>startNs := fst (getTimeNs toyEnv (toyStart 1 2))\<rparr>))))))
     \<and> fst (outOfTime toyEnv (snd (outOfTime toyEnv (countNode (resetPV 0
             (snd (outOfTime toyEnv
                ((snd (getTimeNs toyEnv (toyStart 1 2)))
                   \<lparr>startNs := fst (getTimeNs toyEnv (toyStart 1 2))\<rparr>))))))))
     \<and> startSearch (Suc (Suc 2)) (Suc 5) toyEnv (toyStart 1 2) = Some st2
     \<and> trace st2 = [Polled False, NodeCounted, Polled True, Polled True,
                     Printed BestmoveUninitialised]
     \<and> bestMove st2 = bestMove (toyStart 1 2)"
proof -
  have p0: "print (toyStart 1 0)" "\<not> stop (toyStart 1 0)" "trace (toyStart 1 0) = []"
    and p2: "print (toyStart 1 2)" "\<not> stop (toyStart 1 2)" "trace (toyStart 1 2) = []"
    by (simp_all add: toyStart_def)
  have a: "fst (outOfTime toyEnv
          ((snd (getTimeNs toyEnv (toyStart 1 0)))
             \<lparr>startNs := fst (getTimeNs toyEnv (toyStart 1 0))\<rparr>))"
    by code_simp
  have b1: "\<not> fst (outOfTime toyEnv
          ((snd (getTimeNs toyEnv (toyStart 1 2)))
             \<lparr>startNs := fst (getTimeNs toyEnv (toyStart 1 2))\<rparr>))"
    by code_simp
  have b2: "fst (outOfTime toyEnv (countNode (resetPV 0
             (snd (outOfTime toyEnv
                ((snd (getTimeNs toyEnv (toyStart 1 2)))
                   \<lparr>startNs := fst (getTimeNs toyEnv (toyStart 1 2))\<rparr>))))))"
    by code_simp
  have b3: "fst (outOfTime toyEnv (snd (outOfTime toyEnv (countNode (resetPV 0
             (snd (outOfTime toyEnv
                ((snd (getTimeNs toyEnv (toyStart 1 2)))
                   \<lparr>startNs := fst (getTimeNs toyEnv (toyStart 1 2))\<rparr>))))))))"
    by code_simp
  from no_info_line_when_time_is_up[THEN conjunct1, THEN mp, OF a, of 3 6]
  obtain st1 where r1: "startSearch (Suc 3) 6 toyEnv (toyStart 1 0) = Some st1"
    "trace st1 = [Polled True, Printed BestmoveUninitialised]"
    "bestMove st1 = bestMove (toyStart 1 0)"
    using p0 by auto
  from no_info_line_when_time_is_up[THEN conjunct2, THEN mp, THEN mp, THEN mp, OF b1 b2 b3, of 2 5]
  obtain st2 where r2: "startSearch (Suc (Suc 2)) (Suc 5) toyEnv (toyStart 1 2) = Some st2"
    "trace st2 = [Polled False, NodeCounted, Polled True, Polled True,
                     Printed BestmoveUninitialised]"
    "bestMove st2 = bestMove (toyStart 1 2)"
    using p2 by auto
  from p0 p2 a b1 b2 b3 r1 r2 show ?thesis by blast
qed

subsection \<open>Positions without a legal move\<close>

lemma abStep_no_legal:
  assumes nl: "\<forall>m. m \<noteq> NO_MOVE \<longrightarrow> \<not> isLegalMove e (board st) m"
    and step: "abStep ab e beta depth node sh pe positionKey checkers staticEval cur
                 (alpha, l, bs, bm, ms, st) = Some r"
  shows "r = Return (LoopDone l bs bm, st) \<or> (\<exists>ms1. r = Continue (alpha, l, bs, bm, ms1, st))"
proof -
  obtain move ms1 where nx: "getNextBestMove e (board st) ms = (move, ms1)"
    by (cases "getNextBestMove e (board st) ms") auto
  show ?thesis
  proof (cases "move = NO_MOVE")
    case True
    with step nx show ?thesis by (simp add: abStep_def)
  next
    case False
    with nl have "\<not> isLegalMove e (board st) move" by simp
    with step nx False show ?thesis by (auto simp: abStep_def)
  qed
qed

lemma abLoop_no_legal:
  assumes nl: "\<forall>m. m \<noteq> NO_MOVE \<longrightarrow> \<not> isLegalMove e (board st) m"
    and loop: "loopFuel n (abStep ab e beta depth node sh pe positionKey checkers staticEval cur)
                 (alpha, l, bs, bm, ms, st) = Some r"
  shows "r = (LoopDone l bs bm, st)"
proof (rule loopFuel_rule[OF loop, where I = "\<lambda>s. \<exists>ms1. s = (alpha, l, bs, bm, ms1, st)"])
  show "\<exists>ms1. (alpha, l, bs, bm, ms, st) = (alpha, l, bs, bm, ms1, st)" by simp
next
  fix s s1
  assume "\<exists>ms1. s = (alpha, l, bs, bm, ms1, st)"
    and "abStep ab e beta depth node sh pe positionKey checkers staticEval cur s = Some (Continue s1)"
  then show "\<exists>ms1. s1 = (alpha, l, bs, bm, ms1, st)"
    using abStep_no_legal[OF nl] by blast
next
  fix s r
  assume "\<exists>ms1. s = (alpha, l, bs, bm, ms1, st)"
    and "abStep ab e beta depth node sh pe positionKey checkers staticEval cur s = Some (Return r)"
  then show "r = (LoopDone l bs bm, st)"
    using abStep_no_legal[OF nl] by blast
qed




lemma fst_finishNode_0:
  "fst (finishNode e checkers depth oldAlpha staticEval pe positionKey 0 bs bm st)
   = (if checkers then - CHECKMATE e + uint (ply st) else DRAW e)"
  by (simp add: finishNode_def Let_def)

lemma finishNode_fields:
  assumes "finishNode e checkers depth oldAlpha staticEval pe positionKey l bs bm st = (x, st1)"
  shows "board st1 = board st \<and> helpers st1 = helpers st \<and> bestMove st1 = bestMove st
         \<and> print st1 = print st \<and> stop st1 = stop st"
  using assms by (auto simp: finishNode_def Let_def saveTT_def split: if_splits)

lemma alphaBeta_pv_no_legal:
  assumes nl: "\<forall>m. m \<noteq> NO_MOVE \<longrightarrow> \<not> isLegalMove e (board st) m"
    and pv: "node \<noteq> NON_PV" and d: "depth \<noteq> 0"
    and run: "alphaBeta n e alpha beta depth node sh st = Some (x, st1)"
  shows "board st1 = board st \<and> helpers st1 sh 0 = NO_MOVE \<and> bestMove st1 = bestMove st
         \<and> print st1 = print st
         \<and> (if (node \<noteq> ROOT \<and> isDraw e (board st)) \<or> fst (outOfTime e (countNode (resetPV sh st)))
            then x = DRAW e
            else x = (if getCheckers e (board st) then - CHECKMATE e + uint (ply st) else DRAW e)
                 \<and> \<not> stop st1)"
proof (cases n)
  case 0
  with run show ?thesis by simp
next
  case (Suc m)
  define s1 where "s1 = countNode (resetPV sh st)"
  have f1: "board s1 = board st" "helpers s1 sh 0 = NO_MOVE" "bestMove s1 = bestMove st"
    "print s1 = print st" "ply s1 = ply st"
    by (simp_all add: s1_def countNode_def resetPV_def)
  obtain timeout s2 where oot: "outOfTime e s1 = (timeout, s2)" by (cases "outOfTime e s1") auto
  then have f2: "board s2 = board st" "helpers s2 sh 0 = NO_MOVE" "bestMove s2 = bestMove st"
    "print s2 = print st" "ply s2 = ply st" "stop s2 = timeout"
    using f1 by (auto simp: outOfTime_def getTimeNs_def Let_def)
  show ?thesis
  proof (cases "node \<noteq> ROOT \<and> isDraw e (board st)")
    case True
    then have "(node \<noteq> ROOT \<and> isDraw e (board s1)) = True" using f1 by simp
    with run Suc d have "x = DRAW e" "st1 = s1" by (simp_all add: Let_def s1_def[symmetric])
    with True f1 show ?thesis by simp
  next
    case False
    then have nd: "(node \<noteq> ROOT \<and> isDraw e (board s1)) = False" using f1 by simp
    show ?thesis
    proof (cases timeout)
      case True
      with run Suc d oot have "x = DRAW e" "st1 = s2"
        by (simp_all add: Let_def s1_def[symmetric] nd)
      with True f2 oot show ?thesis by (simp add: s1_def[symmetric])
    next
      case nt: False
      obtain pe hasEvaluation where
        pr: "probeTranspositionTable e (tt s2) (getPositionKey e (board s2)) = (pe, hasEvaluation)"
        by (cases "probeTranspositionTable e (tt s2) (getPositionKey e (board s2))") auto
      have cut: "ttCutoff e (node \<noteq> NON_PV) hasEvaluation pe depth alpha beta (ply s2) = None"
        using pv by (simp add: ttCutoff_def)
      define checkers where "checkers = getCheckers e (board s2)"
      define staticEval where "staticEval = (if checkers then - INFINITE e
                        else if hasEvaluation then pe_staticEvaluation pe
                        else evaluation e (accumulator s2 (unat (ply s2))) (sideToMove e (board s2)))"
      define ttMove where "ttMove = (if hasEvaluation then pe_bestMove pe else NO_MOVE)"
      define key where "key = getPositionKey e (board s2)"
      from run Suc d oot nt pr cut have sn:
        "searchNode (alphaBeta m e) m e alpha beta depth node sh pe hasEvaluation key ttMove s2
         = Some (x, st1)"
        by (simp add: Let_def s1_def[symmetric] nd ttMove_def key_def)
      then have sm: "searchMoves (alphaBeta m e) m e alpha beta depth node sh pe key ttMove
                       checkers staticEval s2 = Some (x, st1)"
        using pv unfolding searchNode_def Let_def checkers_def[symmetric] staticEval_def[symmetric]
        by simp
      define s0 where "s0 = (alpha, 0 :: nat, - INFINITE e, NO_MOVE,
                             createMoveSelector e (board s2) TT_MOVE ttMove, s2)"
      define body where "body = abStep (alphaBeta m e) e beta depth node sh pe key checkers
                                  staticEval (unat (ply s2))"
      from sm pv obtain r where loop: "loopFuel m body s0 = Some r"
        unfolding searchMoves_def s0_def[symmetric] body_def[symmetric]
        by (auto split: option.splits)
      have nl2: "\<forall>m. m \<noteq> NO_MOVE \<longrightarrow> \<not> isLegalMove e (board s2) m" using nl f2 by simp
      from abLoop_no_legal[OF nl2 loop[unfolded body_def s0_def]]
      have r: "r = (LoopDone 0 (- INFINITE e) NO_MOVE, s2)" .
      from sm pv loop r have fin:
        "finishNode e checkers depth alpha staticEval pe key 0 (- INFINITE e) NO_MOVE s2 = (x, st1)"
        unfolding searchMoves_def s0_def[symmetric] body_def[symmetric] by simp
      from fst_finishNode_0[of e checkers depth alpha staticEval pe key "- INFINITE e" NO_MOVE s2] fin
      have x: "x = (if checkers then - CHECKMATE e + uint (ply s2) else DRAW e)" by simp
      from finishNode_fields[OF fin] f2 nt
      have "board st1 = board st" "helpers st1 sh 0 = NO_MOVE" "bestMove st1 = bestMove st"
        "print st1 = print st" "\<not> stop st1" by simp_all
      with x False nt oot f2 show ?thesis by (auto simp: s1_def[symmetric] checkers_def)
    qed
  qed
qed

lemma abLoop_no_legal_total:
  assumes nl: "\<forall>m. m \<noteq> NO_MOVE \<longrightarrow> \<not> isLegalMove e (board st) m"
  shows "selectorEnds e (board st) j ms \<Longrightarrow>
         loopFuel j (abStep ab e beta depth node sh pe positionKey checkers staticEval cur)
           (alpha, l, bs, bm, ms, st) = Some (LoopDone l bs bm, st)"
proof (induction j arbitrary: ms)
  case 0
  then show ?case by simp
next
  case (Suc j)
  obtain move ms1 where nx: "getNextBestMove e (board st) ms = (move, ms1)"
    by (cases "getNextBestMove e (board st) ms") auto
  show ?case
  proof (cases "move = NO_MOVE")
    case True
    with nx show ?thesis by (simp add: abStep_def)
  next
    case False
    with nl have il: "\<not> isLegalMove e (board st) move" by simp
    from Suc.prems nx False have "selectorEnds e (board st) j ms1" by simp
    from Suc.IH[OF this] nx False il show ?thesis by (simp add: abStep_def)
  qed
qed

lemma alphaBeta_pv_no_legal_total:
  assumes nl: "\<forall>m. m \<noteq> NO_MOVE \<longrightarrow> \<not> isLegalMove e (board st) m"
    and pv: "node \<noteq> NON_PV" and d: "depth \<noteq> 0"
    and sel: "\<forall>tm. selectorEnds e (board st) j (createMoveSelector e (board st) TT_MOVE tm)"
  shows "\<exists>x st1. alphaBeta (Suc j) e alpha beta depth node sh st = Some (x, st1)"
proof -
  define s1 where "s1 = countNode (resetPV sh st)"
  have b1: "board s1 = board st" by (simp add: s1_def countNode_def resetPV_def)
  obtain timeout s2 where oot: "outOfTime e s1 = (timeout, s2)" by (cases "outOfTime e s1") auto
  then have b2: "board s2 = board st"
    using b1 by (auto simp: outOfTime_def getTimeNs_def Let_def)
  show ?thesis
  proof (cases "(node \<noteq> ROOT \<and> isDraw e (board s1)) \<or> timeout")
    case True
    with d oot show ?thesis by (auto simp: Let_def s1_def[symmetric])
  next
    case False
    then have nd: "(node \<noteq> ROOT \<and> isDraw e (board s1)) = False" and nt: "\<not> timeout" by simp_all
    obtain pe hasEvaluation where
      pr: "probeTranspositionTable e (tt s2) (getPositionKey e (board s2)) = (pe, hasEvaluation)"
      by (cases "probeTranspositionTable e (tt s2) (getPositionKey e (board s2))") auto
    have cut: "ttCutoff e (node \<noteq> NON_PV) hasEvaluation pe depth alpha beta (ply s2) = None"
      using pv by (simp add: ttCutoff_def)
    define checkers where "checkers = getCheckers e (board s2)"
    define staticEval where "staticEval = (if checkers then - INFINITE e
                      else if hasEvaluation then pe_staticEvaluation pe
                      else evaluation e (accumulator s2 (unat (ply s2))) (sideToMove e (board s2)))"
    define ttMove where "ttMove = (if hasEvaluation then pe_bestMove pe else NO_MOVE)"
    define key where "key = getPositionKey e (board s2)"
    have nl2: "\<forall>m. m \<noteq> NO_MOVE \<longrightarrow> \<not> isLegalMove e (board s2) m" using nl b2 by simp
    have "selectorEnds e (board s2) j (createMoveSelector e (board s2) TT_MOVE ttMove)"
      using sel b2 by simp
    from abLoop_no_legal_total[OF nl2 this]
    have loop: "loopFuel j
        (abStep (alphaBeta j e) e beta depth node sh pe key checkers staticEval (unat (ply s2)))
        (alpha, 0, - INFINITE e, NO_MOVE, createMoveSelector e (board s2) TT_MOVE ttMove, s2)
        = Some (LoopDone 0 (- INFINITE e) NO_MOVE, s2)" .
    have "searchMoves (alphaBeta j e) j e alpha beta depth node sh pe key ttMove
            checkers staticEval s2
          = Some (finishNode e checkers depth alpha staticEval pe key 0 (- INFINITE e) NO_MOVE s2)"
      using pv loop by (simp add: searchMoves_def)
    then have sn: "searchNode (alphaBeta j e) j e alpha beta depth node sh pe hasEvaluation
                     key ttMove s2
          = Some (finishNode e checkers depth alpha staticEval pe key 0 (- INFINITE e) NO_MOVE s2)"
      using pv unfolding searchNode_def Let_def checkers_def[symmetric] staticEval_def[symmetric]
      by simp
    have "alphaBeta (Suc j) e alpha beta depth node sh st
          = Some (finishNode e checkers depth alpha staticEval pe key 0 (- INFINITE e) NO_MOVE s2)"
      using d oot nt pr cut sn
      by (simp add: Let_def s1_def[symmetric] nd ttMove_def key_def)
    then show ?thesis
      by (cases "finishNode e checkers depth alpha staticEval pe key 0 (- INFINITE e) NO_MOVE s2")
         simp
  qed
qed




subsection \<open>Stalemate at the root\<close>

lemma outOfTime_fields:
  assumes "outOfTime e s = (timeout, s1)"
  shows "board s1 = board s \<and> bestMove s1 = bestMove s \<and> print s1 = print s \<and> stop s1 = timeout"
  using assms by (auto simp: outOfTime_def getTimeNs_def Let_def)

lemma printSearch_fields:
  "board (printSearch e d x pv s) = board s \<and> bestMove (printSearch e d x pv s) = bestMove s"
  by (simp add: printSearch_def getTimeNs_def Let_def)

lemma searchStep_stalemate:
  assumes nl: "\<forall>m. m \<noteq> NO_MOVE \<longrightarrow> \<not> isLegalMove e b0 m"
    and nc: "\<not> getCheckers e b0"
    and b: "board st = b0"
    and step: "searchStep k e (alpha, beta, depth, buffers, st) = Some r"
  shows "case r of
           Return (bf, t) \<Rightarrow> board t = b0 \<and> bestMove t = bestMove st
         | Continue (a1, b1, d1, bf1, t) \<Rightarrow>
             board t = b0
             \<and> (bestMove t = bestMove st \<or> bestMove t = \<lparr>mo_move = NO_MOVE, mo_score = DRAW e\<rparr>)"
proof -
  obtain timeout st1 where oot: "outOfTime e st = (timeout, st1)" by (cases "outOfTime e st") auto
  note f1 = outOfTime_fields[OF oot]
  show ?thesis
  proof (cases "depth = 0 \<or> timeout")
    case True
    with step oot f1 b show ?thesis
      by (auto simp: searchStep_def split: if_splits)
  next
    case False
    with step oot obtain x st2 where
      ab: "alphaBeta k e alpha beta depth ROOT 0 st1 = Some (x, st2)"
      by (auto simp: searchStep_def split: option.splits)
    have nl1: "\<forall>m. m \<noteq> NO_MOVE \<longrightarrow> \<not> isLegalMove e (board st1) m" using nl f1 b by simp
    from False have d: "depth \<noteq> 0" by simp
    from alphaBeta_pv_no_legal[OF nl1 _ d ab] nc f1 b
    have f2: "board st2 = b0" "helpers st2 0 0 = NO_MOVE" "bestMove st2 = bestMove st" "x = DRAW e"
      by (auto split: if_splits)
    from step oot False ab f2 show ?thesis
      by (auto simp: searchStep_def Let_def printSearch_fields split: if_splits)
  qed
qed

lemma searchLoop_stalemate:
  assumes nl: "\<forall>m. m \<noteq> NO_MOVE \<longrightarrow> \<not> isLegalMove e b0 m"
    and nc: "\<not> getCheckers e b0"
    and b: "board t0 = b0" and bm: "bestMove t0 = \<lparr>mo_move = NO_MOVE, mo_score = DRAW e\<rparr>"
    and loop: "loopFuel n (searchStep k e) (a0, b1, d0, bf0, t0) = Some (buffers, t)"
  shows "bestMove t = \<lparr>mo_move = NO_MOVE, mo_score = DRAW e\<rparr>"
proof -
  define J where "J = (\<lambda>u :: ('a, 'b, 'c) machine.
     board u = b0 \<and> bestMove u = \<lparr>mo_move = NO_MOVE, mo_score = DRAW e\<rparr>)"
  have "case (buffers, t) of (bf, u) \<Rightarrow> J u"
  proof (rule loopFuel_rule[OF loop, where I = "\<lambda>s. J (snd (snd (snd (snd s))))"])
    show "J (snd (snd (snd (snd (a0, b1, d0, bf0, t0)))))" using b bm by (simp add: J_def)
  next
    fix s s1
    assume a: "J (snd (snd (snd (snd s))))" and st: "searchStep k e s = Some (Continue s1)"
    obtain a1 b1 d1 bf1 t1 where s: "s = (a1, b1, d1, bf1, t1)" by (cases s) auto
    obtain a2 b2 d2 bf2 t2 where s1: "s1 = (a2, b2, d2, bf2, t2)" by (cases s1) auto
    from a s have "board t1 = b0" by (simp add: J_def)
    from searchStep_stalemate[OF nl nc this st[unfolded s]] a s s1
    show "J (snd (snd (snd (snd s1))))" by (auto simp: J_def)
  next
    fix s r
    assume a: "J (snd (snd (snd (snd s))))" and st: "searchStep k e s = Some (Return r)"
    obtain a1 b1 d1 bf1 t1 where s: "s = (a1, b1, d1, bf1, t1)" by (cases s) auto
    obtain bf t2 where r: "r = (bf, t2)" by (cases r) auto
    from a s have "board t1 = b0" by (simp add: J_def)
    from searchStep_stalemate[OF nl nc this st[unfolded s]] a s r
    show "case r of (bf, u) \<Rightarrow> J u" by (auto simp: J_def)
  qed
  then show ?thesis by (simp add: J_def)
qed

text \<open>
  C10: at a root position without a legal move and not in check, if neither the first
  check of the loop nor the poll at the root node of the depth-1 search finds the time
  used up (and \<open>DRAW\<close> lies strictly between \<open>-INFINITE\<close> and \<open>+INFINITE\<close>): once the move
  selector has run out, the first iteration returns and accepts the depth-1 result with
  move \<open>NO_MOVE\<close> and score \<open>DRAW\<close>; and whenever \<open>startSearch\<close> returns, that is the root
  best move it hands back, whatever later iterations do, and \<open>isStalemate\<close> holds of it.
\<close>

theorem stalemate_at_root:
  "(\<forall>m. m \<noteq> NO_MOVE \<longrightarrow> \<not> isLegalMove e (board st) m) \<longrightarrow> \<not> getCheckers e (board st) \<longrightarrow>
   - INFINITE e < DRAW e \<longrightarrow> DRAW e < INFINITE e \<longrightarrow>
   \<not> fst (outOfTime e ((snd (getTimeNs e st))\<lparr>startNs := fst (getTimeNs e st)\<rparr>)) \<longrightarrow>
   \<not> fst (outOfTime e (countNode (resetPV 0
           (snd (outOfTime e ((snd (getTimeNs e st))\<lparr>startNs := fst (getTimeNs e st)\<rparr>)))))) \<longrightarrow>
   ((\<forall>tm. selectorEnds e (board st) j (createMoveSelector e (board st) TT_MOVE tm)) \<longrightarrow>
      (\<exists>bf t. searchStep (Suc j) e (- INFINITE e, INFINITE e, 1, None,
                  (snd (getTimeNs e st))\<lparr>startNs := fst (getTimeNs e st)\<rparr>)
             = Some (Continue (DRAW e - 25, DRAW e + 25, 2, bf, t))
           \<and> bestMove t = \<lparr>mo_move = NO_MOVE, mo_score = DRAW e\<rparr>))
   \<and> (startSearch n k e st = Some st1 \<longrightarrow>
        bestMove st1 = \<lparr>mo_move = NO_MOVE, mo_score = DRAW e\<rparr>
        \<and> isStalemate e (mo_score (bestMove st1)) (mo_move (bestMove st1)))"
proof (intro impI)
  define t0 where "t0 = (snd (getTimeNs e st))\<lparr>startNs := fst (getTimeNs e st)\<rparr>"
  define t1 where "t1 = snd (outOfTime e t0)"
  assume nl: "\<forall>m. m \<noteq> NO_MOVE \<longrightarrow> \<not> isLegalMove e (board st) m"
    and nc: "\<not> getCheckers e (board st)"
    and lo: "- INFINITE e < DRAW e" and hi: "DRAW e < INFINITE e"
    and p1: "\<not> fst (outOfTime e t0)"
    and p2: "\<not> fst (outOfTime e (countNode (resetPV 0 t1)))"
  have b0: "board t0 = board st" by (simp add: t0_def getTimeNs_def)
  have oot: "outOfTime e t0 = (False, t1)" using p1 by (cases "outOfTime e t0") (simp add: t1_def)
  have b1: "board t1 = board st" using outOfTime_fields[OF oot] b0 by simp
  have nl1: "\<forall>m. m \<noteq> NO_MOVE \<longrightarrow> \<not> isLegalMove e (board t1) m" using nl b1 by simp
  have accept: "\<exists>bf t. searchStep i e (- INFINITE e, INFINITE e, 1, None, t0)
             = Some (Continue (DRAW e - 25, DRAW e + 25, 2, bf, t))
           \<and> board t = board st \<and> bestMove t = \<lparr>mo_move = NO_MOVE, mo_score = DRAW e\<rparr>"
    if ab: "alphaBeta i e (- INFINITE e) (INFINITE e) 1 ROOT 0 t1 = Some (x, t2)" for i x t2
  proof -
    from alphaBeta_pv_no_legal[OF nl1 _ _ ab] p2 nc b1
    have f2: "board t2 = board st" "helpers t2 0 0 = NO_MOVE" "x = DRAW e" "\<not> stop t2"
      by auto
    define t4 where "t4 = (if print t2
          then printSearch e 1 x (fst (pvToString e (helpers t2 0)))
                 (t2\<lparr>bestMove := \<lparr>mo_move = helpers t2 0 0, mo_score = x\<rparr>\<rparr>)
          else t2\<lparr>bestMove := \<lparr>mo_move = helpers t2 0 0, mo_score = x\<rparr>\<rparr>)"
    have f4: "board t4 = board st" "bestMove t4 = \<lparr>mo_move = NO_MOVE, mo_score = DRAW e\<rparr>"
      using f2 by (simp_all add: t4_def printSearch_fields)
    have acc: "- INFINITE e < x" "x < INFINITE e" using lo hi f2 by simp_all
    have ab': "alphaBeta i e (- INFINITE e) (INFINITE e) 1 ROOT 0 (snd (outOfTime e t0))
               = Some (x, t2)"
      using ab by (simp add: t1_def)
    from searchStep_accept[OF _ p1 ab' acc f2(4), of None]
    have "searchStep i e (- INFINITE e, INFINITE e, 1, None, t0) =
       Some (Continue (x - 25, x + 25, 2, Some (pvToString e (helpers t2 0)), t4))"
      by (simp add: t4_def)
    with f4 f2(3) show ?thesis by simp
  qed
  have total: "\<exists>bf t. searchStep (Suc j) e (- INFINITE e, INFINITE e, 1, None, t0)
             = Some (Continue (DRAW e - 25, DRAW e + 25, 2, bf, t))
           \<and> bestMove t = \<lparr>mo_move = NO_MOVE, mo_score = DRAW e\<rparr>"
    if sel: "\<forall>tm. selectorEnds e (board st) j (createMoveSelector e (board st) TT_MOVE tm)"
  proof -
    have sel1: "\<forall>tm. selectorEnds e (board t1) j (createMoveSelector e (board t1) TT_MOVE tm)"
      using sel b1 by simp
    from alphaBeta_pv_no_legal_total[OF nl1 _ _ sel1, of ROOT 1 "- INFINITE e" "INFINITE e" 0]
    obtain x t2 where
      "alphaBeta (Suc j) e (- INFINITE e) (INFINITE e) 1 ROOT 0 t1 = Some (x, t2)" by auto
    from accept[OF this] show ?thesis by blast
  qed
  have final: "bestMove st1 = \<lparr>mo_move = NO_MOVE, mo_score = DRAW e\<rparr>
        \<and> isStalemate e (mo_score (bestMove st1)) (mo_move (bestMove st1))"
    if run: "startSearch n k e st = Some st1"
  proof -
    from run obtain buffers t where
      loop: "loopFuel n (searchStep k e) (- INFINITE e, INFINITE e, 1, None, t0) = Some (buffers, t)"
      and fin: "st1 = (if print t then t\<lparr>trace := trace t @ [Printed (printBestmove buffers)]\<rparr> else t)"
      by (auto simp: startSearch_def t0_def split: prod.splits option.splits)
    from loop obtain m where n: "n = Suc m" by (cases n) auto
    from loop n obtain r where step: "searchStep k e (- INFINITE e, INFINITE e, 1, None, t0) = Some r"
      by (cases "searchStep k e (- INFINITE e, INFINITE e, 1, None, t0)") auto
    with oot obtain x t2 where
      ab: "alphaBeta k e (- INFINITE e) (INFINITE e) 1 ROOT 0 t1 = Some (x, t2)"
      by (auto simp: searchStep_def split: option.splits)
    from accept[OF ab] obtain bf t4 where
      step1: "searchStep k e (- INFINITE e, INFINITE e, 1, None, t0)
             = Some (Continue (DRAW e - 25, DRAW e + 25, 2, bf, t4))"
      and f4: "board t4 = board st" "bestMove t4 = \<lparr>mo_move = NO_MOVE, mo_score = DRAW e\<rparr>"
      by blast
    with loop n have loop1:
      "loopFuel m (searchStep k e) (DRAW e - 25, DRAW e + 25, 2, bf, t4) = Some (buffers, t)"
      by simp
    from searchLoop_stalemate[OF nl nc f4 loop1]
    have "bestMove t = \<lparr>mo_move = NO_MOVE, mo_score = DRAW e\<rparr>" .
    with fin have "bestMove st1 = \<lparr>mo_move = NO_MOVE, mo_score = DRAW e\<rparr>" by simp
    then show ?thesis by (simp add: isStalemate_def)
  qed
  from total final
  show "((\<forall>tm. selectorEnds e (board st) j (createMoveSelector e (board st) TT_MOVE tm)) \<longrightarrow>
      (\<exists>bf t. searchStep (Suc j) e (- INFINITE e, INFINITE e, 1, None, t0)
             = Some (Continue (DRAW e - 25, DRAW e + 25, 2, bf, t))
           \<and> bestMove t = \<lparr>mo_move = NO_MOVE, mo_score = DRAW e\<rparr>))
   \<and> (startSearch n k e st = Some st1 \<longrightarrow>
        bestMove st1 = \<lparr>mo_move = NO_MOVE, mo_score = DRAW e\<rparr>
        \<and> isStalemate e (mo_score (bestMove st1)) (mo_move (bestMove st1)))"
    by blast
qed

lemma toy_stalemate_runs: "\<not> Option.is_none (startSearch 4 6 toyEnv (toyStart 0 5))"
  by code_simp

theorem stalemate_at_root_witness:
  "\<exists>bf t st1.
     (\<forall>m. m \<noteq> NO_MOVE \<longrightarrow> \<not> isLegalMove toyEnv (board (toyStart 0 5)) m)
     \<and> \<not> getCheckers toyEnv (board (toyStart 0 5))
     \<and> - INFINITE toyEnv < DRAW toyEnv \<and> DRAW toyEnv < INFINITE toyEnv
     \<and> \<not> fst (outOfTime toyEnv
            ((snd (getTimeNs toyEnv (toyStart 0 5)))
               \<lparr>startNs := fst (getTimeNs toyEnv (toyStart 0 5))\<rparr>))
     \<and> \<not> fst (outOfTime toyEnv (countNode (resetPV 0
            (snd (outOfTime toyEnv
               ((snd (getTimeNs toyEnv (toyStart 0 5)))
                  \<lparr>startNs := fst (getTimeNs toyEnv (toyStart 0 5))\<rparr>))))))
     \<and> (\<forall>tm. selectorEnds toyEnv (board (toyStart 0 5)) (Suc (Suc (Suc 0)))
                (createMoveSelector toyEnv (board (toyStart 0 5)) TT_MOVE tm))
     \<and> searchStep (Suc (Suc (Suc (Suc 0)))) toyEnv
          (- INFINITE toyEnv, INFINITE toyEnv, 1, None,
           (snd (getTimeNs toyEnv (toyStart 0 5)))
             \<lparr>startNs := fst (getTimeNs toyEnv (toyStart 0 5))\<rparr>)
         = Some (Continue (DRAW toyEnv - 25, DRAW toyEnv + 25, 2, bf, t))
     \<and> bestMove t = \<lparr>mo_move = NO_MOVE, mo_score = DRAW toyEnv\<rparr>
     \<and> startSearch 4 6 toyEnv (toyStart 0 5) = Some st1
     \<and> bestMove st1 = \<lparr>mo_move = NO_MOVE, mo_score = DRAW toyEnv\<rparr>
     \<and> isStalemate toyEnv (mo_score (bestMove st1)) (mo_move (bestMove st1))"
proof -
  have nl: "\<forall>m. m \<noteq> NO_MOVE \<longrightarrow> \<not> isLegalMove toyEnv (board (toyStart 0 5)) m"
    by (simp add: toyEnv_def toyStart_def NO_MOVE_def)
  have nc: "\<not> getCheckers toyEnv (board (toyStart 0 5))" by (simp add: toyEnv_def)
  have lo: "- INFINITE toyEnv < DRAW toyEnv" and hi: "DRAW toyEnv < INFINITE toyEnv"
    by (simp_all add: toyEnv_def)
  have p1: "\<not> fst (outOfTime toyEnv
            ((snd (getTimeNs toyEnv (toyStart 0 5)))
               \<lparr>startNs := fst (getTimeNs toyEnv (toyStart 0 5))\<rparr>))"
    by code_simp
  have p2: "\<not> fst (outOfTime toyEnv (countNode (resetPV 0
            (snd (outOfTime toyEnv
               ((snd (getTimeNs toyEnv (toyStart 0 5)))
                  \<lparr>startNs := fst (getTimeNs toyEnv (toyStart 0 5))\<rparr>))))))"
    by code_simp
  have sel: "\<forall>tm. selectorEnds toyEnv (board (toyStart 0 5)) (Suc (Suc (Suc 0)))
                (createMoveSelector toyEnv (board (toyStart 0 5)) TT_MOVE tm)"
    by (simp add: toyEnv_def toyStart_def NO_MOVE_def)
  obtain st1 where run: "startSearch 4 6 toyEnv (toyStart 0 5) = Some st1"
    using toy_stalemate_runs by (auto simp: Option.is_none_def)
  note th = stalemate_at_root[THEN mp, THEN mp, THEN mp, THEN mp, THEN mp, THEN mp,
      OF nl nc lo hi p1 p2]
  from th[THEN conjunct1, THEN mp, OF sel]
    th[THEN conjunct2, THEN mp, OF run] nl nc lo hi p1 p2 sel run
  show ?thesis by blast
qed

end
